theory Spec2Isabelle
  imports Complex_Main "HOL-Library.Multiset" "HOL-Library.Signed_Division" "HOL-Library.Sublist"
begin

section \<open>Data model (types.ts)\<close>

text \<open>
  The enum \<open>Direction\<close> and the interface \<open>DrillCommand\<close>. The field \<open>value\<close> of the
  source is called \<open>val\<close> here. Click values and \<open>numCommands\<close> are JavaScript numbers
  that the application obtains with \<open>parseInt\<close>; they are modelled as unbounded integers.
  Intervals and speech rates are JavaScript numbers with fractions; they are modelled as exact
  rationals.
\<close>

datatype Direction = Up | Down | Left | Right

record DrillCommand =
  direction :: Direction
  val :: int

section \<open>The drill generator (services/drillGenerator.ts)\<close>

text \<open>\<open>isMoveValid\<close>, lines 11-30. The \<open>default\<close> branch of the switch is unreachable for
  the four directions of the enum.\<close>

definition isMoveValid :: "DrillCommand \<Rightarrow> int \<Rightarrow> int \<Rightarrow> int \<Rightarrow> bool" where
  "isMoveValid command currentTraverse currentElevation maxTAndE =
     (case direction command of
        Up \<Rightarrow> currentElevation + val command \<le> maxTAndE
      | Down \<Rightarrow> currentElevation - val command \<ge> - maxTAndE
      | Left \<Rightarrow> currentTraverse - val command \<ge> - maxTAndE
      | Right \<Rightarrow> currentTraverse + val command \<le> maxTAndE)"

text \<open>
  Randomness. Every call of \<open>Math.random()\<close> yields a float in \<open>[0, 1)\<close>. The source uses
  a draw in two ways only: \<open>Math.floor(Math.random() * n)\<close>, which is some index below
  \<open>n\<close>, and \<open>Math.random() > 0.5\<close>, which is some boolean. The random source is modelled
  as an infinite sequence of natural numbers read through a counter: a draw \<open>r\<close> used as an
  index is \<open>r mod n\<close> (every index below \<open>n\<close> can occur and no other), a draw used as a
  boolean is \<open>odd r\<close>. Theorems quantify over all such sequences, hence over all outcomes
  of the random choices.
\<close>

type_synonym rng = "nat \<Rightarrow> nat"

definition randomIndex :: "nat \<Rightarrow> nat \<Rightarrow> nat" where
  "randomIndex r n = r mod n"

definition randomAboveHalf :: "nat \<Rightarrow> bool" where
  "randomAboveHalf r = odd r"

definition MAX_GENERATION_ATTEMPTS :: nat where
  "MAX_GENERATION_ATTEMPTS = 10"

text \<open>Line 41: \<open>numCommands % 2 === 0 ? numCommands : numCommands + 1\<close>. The remainder of
  JavaScript takes the sign of the dividend, which is \<open>smod\<close>.\<close>

definition totalCommandsOf :: "int \<Rightarrow> int" where
  "totalCommandsOf numCommands =
     (if numCommands smod 2 = 0 then numCommands else numCommands + 1)"

text \<open>Line 42: \<open>totalCommands / 2\<close>; the dividend is even, so the division is exact.\<close>

definition halfCommandsOf :: "int \<Rightarrow> int" where
  "halfCommandsOf totalCommands = totalCommands sdiv 2"

text \<open>
  Lines 46-50, the loop \<open>for (let i = 0; i < halfCommands; i++)\<close>: the first argument is
  the number of iterations still to run, \<open>positiveCommands\<close> is the list built so far,
  \<open>k\<close> the position in the random sequence. Each iteration draws the click value first
  and the axis second. The loop only runs after the guard of line 33, so \<open>clickValues\<close> is
  not empty and the index is in range.
\<close>

fun generatePositive ::
  "nat \<Rightarrow> int list \<Rightarrow> DrillCommand list \<Rightarrow> rng \<Rightarrow> nat \<Rightarrow> DrillCommand list \<times> nat" where
  "generatePositive 0 clickValues positiveCommands rnd k = (positiveCommands, k)"
| "generatePositive (Suc remaining) clickValues positiveCommands rnd k =
     (let clickValue = clickValues ! randomIndex (rnd k) (length clickValues);
          isHorizontal = randomAboveHalf (rnd (k + 1))
      in generatePositive remaining clickValues
           (positiveCommands @
              [\<lparr>direction = (if isHorizontal then Right else Up), val = clickValue\<rparr>])
           rnd (k + 2))"

text \<open>Lines 53-56, the mirror image of one command.\<close>

definition negativeOf :: "DrillCommand \<Rightarrow> DrillCommand" where
  "negativeOf command =
     \<lparr>direction = (if direction command = Right then Left else Down), val = val command\<rparr>"

text \<open>Lines 82-87, the update of the simulated state \<open>(simTraverse, simElevation)\<close>.\<close>

definition applyCommand :: "int \<times> int \<Rightarrow> DrillCommand \<Rightarrow> int \<times> int" where
  "applyCommand pos command =
     (case pos of (simTraverse, simElevation) \<Rightarrow>
        (case direction command of
           Up \<Rightarrow> (simTraverse, simElevation + val command)
         | Down \<Rightarrow> (simTraverse, simElevation - val command)
         | Left \<Rightarrow> (simTraverse - val command, simElevation)
         | Right \<Rightarrow> (simTraverse + val command, simElevation)))"

text \<open>Line 65-67: the indices of the pool whose command is a valid move.\<close>

definition validMoveIndices :: "DrillCommand list \<Rightarrow> int \<times> int \<Rightarrow> int \<Rightarrow> nat list" where
  "validMoveIndices availableCommands pos maxTAndE =
     filter (\<lambda>index. isMoveValid (availableCommands ! index) (fst pos) (snd pos) maxTAndE)
       [0 ..< length availableCommands]"

text \<open>\<open>availableCommands.splice(index, 1)\<close>: the pool without the element at \<open>index\<close>.\<close>

definition spliceOut :: "nat \<Rightarrow> 'a list \<Rightarrow> 'a list" where
  "spliceOut index xs = take index xs @ drop (Suc index) xs"

text \<open>
  Lines 64-88, the loop \<open>while (availableCommands.length > 0)\<close>, with the \<open>break\<close> of
  line 71 when no move is valid. The result is \<open>finalDrill\<close> with the position reached in
  the random sequence.
\<close>

function buildDrill ::
  "DrillCommand list \<Rightarrow> DrillCommand list \<Rightarrow> int \<times> int \<Rightarrow> int \<Rightarrow> rng \<Rightarrow> nat
     \<Rightarrow> DrillCommand list \<times> nat" where
  "buildDrill availableCommands finalDrill pos maxTAndE rnd k =
     (if availableCommands = [] then (finalDrill, k)
      else if validMoveIndices availableCommands pos maxTAndE = [] then (finalDrill, k)
      else
        (let valid = validMoveIndices availableCommands pos maxTAndE;
             randomValidIndex = valid ! randomIndex (rnd k) (length valid);
             chosenCommand = availableCommands ! randomValidIndex
         in buildDrill (spliceOut randomValidIndex availableCommands)
              (finalDrill @ [chosenCommand]) (applyCommand pos chosenCommand) maxTAndE rnd (k + 1)))"
  by pat_completeness auto
termination
proof (relation "measure (\<lambda>(availableCommands, _). length availableCommands)")
  show "wf (measure (\<lambda>(availableCommands, _). length availableCommands))"
    by simp
next
  fix availableCommands finalDrill :: "DrillCommand list"
    and pos :: "int \<times> int" and maxTAndE :: int and rnd :: rng and k :: nat
    and valid randomValidIndex chosenCommand
  assume ne: "validMoveIndices availableCommands pos maxTAndE \<noteq> []"
    and v: "valid = validMoveIndices availableCommands pos maxTAndE"
    and i: "randomValidIndex = valid ! randomIndex (rnd k) (length valid)"
  from ne v have "randomIndex (rnd k) (length valid) < length valid"
    by (simp add: randomIndex_def)
  then have "randomValidIndex \<in> set valid"
    using i by simp
  then have "randomValidIndex < length availableCommands"
    using v by (simp add: validMoveIndices_def)
  then show "((spliceOut randomValidIndex availableCommands, finalDrill @ [chosenCommand],
       applyCommand pos chosenCommand, maxTAndE, rnd, k + 1),
      (availableCommands, finalDrill, pos, maxTAndE, rnd, k))
       \<in> measure (\<lambda>(availableCommands, _). length availableCommands)"
    by (simp add: spliceOut_def)
qed

declare buildDrill.simps [simp del]

text \<open>
  The result of \<open>generateDrill\<close>: the returned array, and two observations of the run, the
  number of iterations of the retry loop that were started and whether the failure was
  logged with \<open>console.error\<close>.
\<close>

record GenerationResult =
  drill :: "DrillCommand list"
  attempts :: nat
  errorLogged :: bool

text \<open>Lines 40-93, the retry loop \<open>for (let attempt = 0; attempt < 10; attempt++)\<close>, and
  lines 96-97 after it.\<close>

function attemptLoop :: "nat \<Rightarrow> int \<Rightarrow> int list \<Rightarrow> int \<Rightarrow> rng \<Rightarrow> nat \<Rightarrow> GenerationResult" where
  "attemptLoop attempt numCommands clickValues maxTAndE rnd k =
     (if attempt < MAX_GENERATION_ATTEMPTS then
        (let totalCommands = totalCommandsOf numCommands;
             halfCommands = halfCommandsOf totalCommands;
             (positiveCommands, k1) = generatePositive (nat halfCommands) clickValues [] rnd k;
             negativeCommands = map negativeOf positiveCommands;
             availableCommands = positiveCommands @ negativeCommands;
             (finalDrill, k2) = buildDrill availableCommands [] (0, 0) maxTAndE rnd k1
         in if int (length finalDrill) = totalCommands
            then \<lparr>drill = finalDrill, attempts = attempt + 1, errorLogged = False\<rparr>
            else attemptLoop (attempt + 1) numCommands clickValues maxTAndE rnd k2)
      else \<lparr>drill = [], attempts = attempt, errorLogged = True\<rparr>)"
  by pat_completeness auto
termination
  by (relation "measure (\<lambda>(attempt, _). MAX_GENERATION_ATTEMPTS - attempt)") auto

declare attemptLoop.simps [simp del]

text \<open>\<open>generateDrill\<close>, lines 32-98, with the guard of lines 33-36 first.\<close>

definition generateDrill :: "int \<Rightarrow> int list \<Rightarrow> int \<Rightarrow> rng \<Rightarrow> GenerationResult" where
  "generateDrill numCommands clickValues maxTAndE rnd =
     (if clickValues = [] \<or> (\<exists>v \<in> set clickValues. v > maxTAndE)
      then \<lparr>drill = [], attempts = 0, errorLogged = False\<rparr>
      else attemptLoop 0 numCommands clickValues maxTAndE rnd 0)"

text \<open>
  Two notions derived from the code, used to state facts about the loops: the index picked by
  line 75 for a draw \<open>r\<close>, and the pool of line 58 built by an attempt that starts reading
  the random sequence at position \<open>k\<close>.
\<close>

definition chosenIndex :: "DrillCommand list \<Rightarrow> int \<times> int \<Rightarrow> int \<Rightarrow> nat \<Rightarrow> nat" where
  "chosenIndex availableCommands pos maxTAndE r =
     validMoveIndices availableCommands pos maxTAndE
       ! randomIndex r (length (validMoveIndices availableCommands pos maxTAndE))"

definition pooledCommands :: "int \<Rightarrow> int list \<Rightarrow> rng \<Rightarrow> nat \<Rightarrow> DrillCommand list" where
  "pooledCommands numCommands clickValues rnd k =
     (let positiveCommands =
        fst (generatePositive (nat (halfCommandsOf (totalCommandsOf numCommands)))
               clickValues [] rnd k)
      in positiveCommands @ map negativeOf positiveCommands)"

section \<open>The properties of a sequence\<close>

text \<open>
  A position is the pair (traverse, elevation). \<open>withinBound\<close> says that both axes lie in
  \<open>[-maxTAndE, maxTAndE]\<close>; \<open>positionAfter\<close> applies a sequence as signed deltas from
  \<open>(0, 0)\<close>; \<open>elevationDelta\<close> and \<open>traverseDelta\<close> are the signed magnitudes of one
  command on each axis (Up and Right positive, Down and Left negative).
\<close>

definition withinBound :: "int \<Rightarrow> int \<times> int \<Rightarrow> bool" where
  "withinBound maxTAndE pos =
     (- maxTAndE \<le> fst pos \<and> fst pos \<le> maxTAndE \<and> - maxTAndE \<le> snd pos \<and> snd pos \<le> maxTAndE)"

definition positionAfter :: "DrillCommand list \<Rightarrow> int \<times> int" where
  "positionAfter sequence = foldl applyCommand (0, 0) sequence"

definition elevationDelta :: "DrillCommand \<Rightarrow> int" where
  "elevationDelta command =
     (case direction command of Up \<Rightarrow> val command | Down \<Rightarrow> - val command | _ \<Rightarrow> 0)"

definition traverseDelta :: "DrillCommand \<Rightarrow> int" where
  "traverseDelta command =
     (case direction command of Right \<Rightarrow> val command | Left \<Rightarrow> - val command | _ \<Rightarrow> 0)"

section \<open>The speech player (services/speech.ts)\<close>

text \<open>
  The string values of the enum, and the conversion of a number to a string inside a
  template literal: an integer prints in decimal, with a leading minus sign when negative
  (JavaScript does so for integers of magnitude below \<open>10\<^sup>2\<^sup>1\<close>).
\<close>

definition directionString :: "Direction \<Rightarrow> string" where
  "directionString d =
     (case d of Up \<Rightarrow> ''UP'' | Down \<Rightarrow> ''DOWN'' | Left \<Rightarrow> ''LEFT'' | Right \<Rightarrow> ''RIGHT'')"

definition digitChar :: "nat \<Rightarrow> char" where
  "digitChar d = char_of (48 + d)"

fun showNat :: "nat \<Rightarrow> string" where
  "showNat n = (if n < 10 then [digitChar n] else showNat (n div 10) @ [digitChar (n mod 10)])"

declare showNat.simps [simp del]

definition numberToString :: "int \<Rightarrow> string" where
  "numberToString i = (if i < 0 then CHR ''-'' # showNat (nat (- i)) else showNat (nat i))"

text \<open>\<open>commandToKey\<close>, line 9: the template \<open>${command.direction}_${command.value}\<close>.\<close>

definition commandToKey :: "DrillCommand \<Rightarrow> string" where
  "commandToKey command =
     directionString (direction command) @ ''_'' @ numberToString (val command)"

text \<open>
  A \<open>SpeechSynthesisUtterance\<close> with the attributes the code reads or writes. A new
  utterance has pitch, volume and rate 1.
\<close>

record Utterance =
  spokenText :: string
  pitch :: rat
  volume :: rat
  rate :: rat

definition newUtterance :: "string \<Rightarrow> Utterance" where
  "newUtterance s = \<lparr>spokenText = s, pitch = 1, volume = 1, rate = 1\<rparr>"

text \<open>
  The state that the class \<open>CommandPlayer\<close> works on: its two private fields, the
  utterances that \<open>window.speechSynthesis\<close> is speaking or has queued, and the messages
  given to \<open>console.warn\<close>. \<open>speechSynthesis.cancel()\<close> removes every utterance from the
  queue, \<open>speechSynthesis.speak(u)\<close> adds \<open>u\<close> at its end.
\<close>

record CommandPlayer =
  isSupported :: bool
  utteranceCache :: "string \<rightharpoonup> Utterance"
  speechQueue :: "Utterance list"
  warnings :: "string list"

definition cancel :: "CommandPlayer \<Rightarrow> CommandPlayer" where
  "cancel player = player\<lparr>speechQueue := []\<rparr>"

definition speak :: "Utterance \<Rightarrow> CommandPlayer \<Rightarrow> CommandPlayer" where
  "speak utterance player = player\<lparr>speechQueue := speechQueue player @ [utterance]\<rparr>"

text \<open>The constructor, lines 19-27; its argument says whether the platform has speech
  synthesis.\<close>

definition newCommandPlayer :: "bool \<Rightarrow> CommandPlayer" where
  "newCommandPlayer supported =
     \<lparr>isSupported = supported, utteranceCache = Map.empty, speechQueue = [], warnings = []\<rparr>"

text \<open>\<open>warmUp\<close>, lines 33-38.\<close>

definition warmUp :: "CommandPlayer \<Rightarrow> CommandPlayer" where
  "warmUp player =
     (if \<not> isSupported player then player
      else speak ((newUtterance '' '')\<lparr>volume := 0\<rparr>) player)"

text \<open>\<open>preload\<close>, lines 45-60: \<open>preloadOne\<close> is the body of the inner loop, lines 52-57.\<close>

definition directions :: "Direction list" where
  "directions = [Up, Down, Left, Right]"

definition preloadOne :: "int \<Rightarrow> CommandPlayer \<Rightarrow> Direction \<Rightarrow> CommandPlayer" where
  "preloadOne clickValue player d =
     (let key = commandToKey \<lparr>direction = d, val = clickValue\<rparr>;
          spoken = directionString d @ '' '' @ numberToString clickValue;
          utterance = (newUtterance spoken)\<lparr>pitch := 1, volume := 1\<rparr>
      in player\<lparr>utteranceCache := (utteranceCache player)(key \<mapsto> utterance)\<rparr>)"

definition preload :: "CommandPlayer \<Rightarrow> int list \<Rightarrow> CommandPlayer" where
  "preload player clickValues =
     (if \<not> isSupported player then player
      else foldl (\<lambda>p clickValue. foldl (preloadOne clickValue) p directions)
             (player\<lparr>utteranceCache := Map.empty\<rparr>) clickValues)"

text \<open>\<open>Math.round\<close> rounds to the nearest integer, a half towards plus infinity.\<close>

definition mathRound :: "rat \<Rightarrow> int" where
  "mathRound x = \<lfloor>x + 1 / 2\<rfloor>"

text \<open>\<open>calculateAutoSpeed\<close>, lines 67-78.\<close>

definition calculateAutoSpeed :: "rat \<Rightarrow> rat" where
  "calculateAutoSpeed interval =
     (let baseSpeed = 2 in
      if interval \<ge> 1 then baseSpeed
      else
        (let intervalDifference = 1 - interval;
             steps = mathRound (intervalDifference * 10);
             speedIncrease = of_int steps * (3 / 10)
         in baseSpeed + speedIncrease))"

text \<open>Lines 101-110 of \<open>play\<close>: the rate that is written to the utterance.\<close>

definition clampedRate :: "rat \<Rightarrow> bool \<Rightarrow> rat \<Rightarrow> rat" where
  "clampedRate interval manualSpeed speedMultiplier =
     (let finalRate = (if manualSpeed then speedMultiplier else calculateAutoSpeed interval)
      in min 10 (max (1 / 2) finalRate))"

text \<open>
  \<open>play\<close>, lines 87-113. The cached utterance is an object: the assignment to its rate
  changes the cache entry too, so the entry is written back.
\<close>

definition play :: "CommandPlayer \<Rightarrow> DrillCommand \<Rightarrow> rat \<Rightarrow> bool \<Rightarrow> rat \<Rightarrow> CommandPlayer" where
  "play player command interval manualSpeed speedMultiplier =
     (if \<not> isSupported player then player
      else
        (let key = commandToKey command in
         case utteranceCache player key of
           None \<Rightarrow>
             player\<lparr>warnings := warnings player @
               [''Command not preloaded: '' @ directionString (direction command) @ '' ''
                  @ numberToString (val command)]\<rparr>
         | Some utterance \<Rightarrow>
             (let cancelled = cancel player;
                  utterance' = utterance\<lparr>rate := clampedRate interval manualSpeed speedMultiplier\<rparr>
              in speak utterance'
                   (cancelled\<lparr>utteranceCache := (utteranceCache cancelled)(key \<mapsto> utterance')\<rparr>))))"

text \<open>\<open>stop\<close>, lines 118-122.\<close>

definition stop :: "CommandPlayer \<Rightarrow> CommandPlayer" where
  "stop player = (if isSupported player then cancel player else player)"

text \<open>
  The rate as the specification words it, 0.3 for every full 0.1 s that the interval is
  below 1.0 s, to compare with \<open>calculateAutoSpeed\<close>.
\<close>

definition specAutoSpeed :: "rat \<Rightarrow> rat" where
  "specAutoSpeed interval =
     (if interval \<ge> 1 then 2 else 2 + (3 / 10) * of_int \<lfloor>(1 - interval) / (1 / 10)\<rfloor>)"

text \<open>The key and the fresh utterance that \<open>preload\<close> makes for a direction and a click
  value.\<close>

definition keyFor :: "Direction \<Rightarrow> int \<Rightarrow> string" where
  "keyFor d v = commandToKey \<lparr>direction = d, val = v\<rparr>"

definition cueFor :: "Direction \<Rightarrow> int \<Rightarrow> Utterance" where
  "cueFor d v =
     \<lparr>spokenText = directionString d @ '' '' @ numberToString v, pitch = 1, volume = 1, rate = 1\<rparr>"

section \<open>The drill runner (components/DrillRunner.tsx)\<close>

text \<open>
  The props of the component that the progression effect reads, and the component's state:
  the index of the current command, the logical position kept in \<open>tAndERef\<close> and the
  displayed position. The callback \<open>onFinish\<close> is modelled by the outcome of the effect.
\<close>

record RunnerProps =
  commands :: "DrillCommand list"
  commandInterval :: rat
  voiceEnabled :: bool
  ttsManualSpeed :: bool
  ttsSpeedMultiplier :: rat
  maxTAndE :: int

record RunnerState =
  currentCommandIndex :: nat
  tAndERef :: "int \<times> int"
  displayTAndE :: "int \<times> int"

text \<open>Lines 37-41, the state of a freshly mounted runner.\<close>

definition initialRunnerState :: RunnerState where
  "initialRunnerState = \<lparr>currentCommandIndex = 0, tAndERef = (0, 0), displayTAndE = (0, 0)\<rparr>"

text \<open>Line 43, \<open>commands[currentCommandIndex]\<close>: reading past the end of an array gives
  \<open>undefined\<close>, here \<open>None\<close>.\<close>

definition currentCommand :: "RunnerProps \<Rightarrow> RunnerState \<Rightarrow> DrillCommand option" where
  "currentCommand props st =
     (if currentCommandIndex st < length (commands props)
      then Some (commands props ! currentCommandIndex st) else None)"

text \<open>
  What one run of the effect of lines 47-102 does before it returns: it calls \<open>onFinish\<close>
  with a position, or it returns having scheduled nothing, or it schedules the two timers
  for the current command (after the speech dispatch of lines 56-63).
\<close>

datatype EffectOutcome = OnFinish "int \<times> int" | NothingScheduled | TimersScheduled DrillCommand

definition progressionEffect ::
  "RunnerProps \<Rightarrow> RunnerState \<Rightarrow> CommandPlayer \<Rightarrow> EffectOutcome \<times> CommandPlayer" where
  "progressionEffect props st player =
     (case currentCommand props st of
        None \<Rightarrow>
          (if length (commands props) > 0 then (OnFinish (tAndERef st), player)
           else (NothingScheduled, player))
      | Some command \<Rightarrow>
          (TimersScheduled command,
           if voiceEnabled props then
             (if commandInterval props \<ge> 1 / 10
              then play player command (commandInterval props) (ttsManualSpeed props)
                     (ttsSpeedMultiplier props)
              else stop player)
           else player))"

text \<open>The callback of the first timer, lines 66-85. The switch of lines 70-75 is the one of
  the generator, \<open>applyCommand\<close>.\<close>

definition gridUpdateTimer :: "RunnerProps \<Rightarrow> DrillCommand \<Rightarrow> RunnerState \<Rightarrow> RunnerState" where
  "gridUpdateTimer props command st =
     (case applyCommand (tAndERef st) command of (traverse, elevation) \<Rightarrow>
        (let traverse' = max (- maxTAndE props) (min (maxTAndE props) traverse);
             elevation' = max (- maxTAndE props) (min (maxTAndE props) elevation)
         in st\<lparr>tAndERef := (traverse', elevation'), displayTAndE := (traverse', elevation')\<rparr>))"

text \<open>The callback of the second timer, lines 88-95: the final position when the drill is
  over, the state with the next index otherwise.\<close>

definition nextCommandTimer :: "RunnerProps \<Rightarrow> RunnerState \<Rightarrow> (int \<times> int) + RunnerState" where
  "nextCommandTimer props st =
     (if int (currentCommandIndex st) \<ge> int (length (commands props)) - 1
      then Inl (tAndERef st)
      else Inr (st\<lparr>currentCommandIndex := currentCommandIndex st + 1\<rparr>))"

text \<open>
  A whole run with unchanged props: the effect, then both timers, then the effect again for
  the next index. The fuel bounds the number of effect runs. \<open>Stalled\<close> is the run in which
  the effect returned with no timer pending and \<open>onFinish\<close> not called: nothing happens
  afterwards.
\<close>

datatype RunResult = Finished "int \<times> int" | Stalled | OutOfFuel

fun runDrill :: "nat \<Rightarrow> RunnerProps \<Rightarrow> RunnerState \<Rightarrow> CommandPlayer \<Rightarrow> RunResult" where
  "runDrill 0 props st player = OutOfFuel"
| "runDrill (Suc fuel) props st player =
     (case progressionEffect props st player of
        (OnFinish pos, player') \<Rightarrow> Finished pos
      | (NothingScheduled, player') \<Rightarrow> Stalled
      | (TimersScheduled command, player') \<Rightarrow>
          (case nextCommandTimer props (gridUpdateTimer props command st) of
             Inl pos \<Rightarrow> Finished pos
           | Inr st' \<Rightarrow> runDrill fuel props st' player'))"

text \<open>The props of the application's default configuration (App.tsx) around a given
  sequence.\<close>

definition defaultProps :: "DrillCommand list \<Rightarrow> RunnerProps" where
  "defaultProps sequence = \<lparr>commands = sequence, commandInterval = 1, voiceEnabled = True,
     ttsManualSpeed = False, ttsSpeedMultiplier = 2, maxTAndE = 25\<rparr>"

section \<open>Facts about the generator loops\<close>

lemma validMoveIndices_bound:
  "index \<in> set (validMoveIndices av pos m) \<Longrightarrow> index < length av"
  by (simp add: validMoveIndices_def)

lemma validMoveIndices_valid:
  "index \<in> set (validMoveIndices av pos m)
     \<Longrightarrow> isMoveValid (av ! index) (fst pos) (snd pos) m"
  by (simp add: validMoveIndices_def)

lemma randomIndex_less: "0 < n \<Longrightarrow> randomIndex r n < n"
  by (simp add: randomIndex_def)

lemma length_spliceOut: "index < length xs \<Longrightarrow> length (spliceOut index xs) = length xs - 1"
  by (simp add: spliceOut_def)

lemma spliceOut_mset:
  "i < length xs \<Longrightarrow> add_mset (xs ! i) (mset (spliceOut i xs)) = mset xs"
  unfolding spliceOut_def
  by (metis append_take_drop_id Cons_nth_drop_Suc mset.simps(2) mset_append union_mset_add_mset_right)

lemma chosenIndex_valid:
  assumes "validMoveIndices av pos m \<noteq> []"
  shows "chosenIndex av pos m r \<in> set (validMoveIndices av pos m)"
  using assms by (simp add: chosenIndex_def randomIndex_less)

lemma buildDrill_stop:
  "av = [] \<or> validMoveIndices av pos m = [] \<Longrightarrow> buildDrill av fin pos m rnd k = (fin, k)"
  by (auto simp add: buildDrill.simps [of av])

lemma buildDrill_step:
  "av \<noteq> [] \<Longrightarrow> validMoveIndices av pos m \<noteq> [] \<Longrightarrow>
   buildDrill av fin pos m rnd k =
     buildDrill (spliceOut (chosenIndex av pos m (rnd k)) av)
       (fin @ [av ! chosenIndex av pos m (rnd k)])
       (applyCommand pos (av ! chosenIndex av pos m (rnd k))) m rnd (k + 1)"
  by (simp add: buildDrill.simps [of av] chosenIndex_def Let_def)

lemma buildDrill_cases [case_names stop step]:
  assumes "\<And>av fin pos k. av = [] \<or> validMoveIndices av pos m = [] \<Longrightarrow> P av fin pos k"
    and "\<And>av fin pos k i.
           i = chosenIndex av pos m (rnd k) \<Longrightarrow> i < length av \<Longrightarrow>
           isMoveValid (av ! i) (fst pos) (snd pos) m \<Longrightarrow>
           buildDrill av fin pos m rnd k =
             buildDrill (spliceOut i av) (fin @ [av ! i]) (applyCommand pos (av ! i)) m rnd (k + 1) \<Longrightarrow>
           P (spliceOut i av) (fin @ [av ! i]) (applyCommand pos (av ! i)) (k + 1) \<Longrightarrow>
           P av fin pos k"
  shows "P av fin pos k"
proof -
  have "m' = m \<Longrightarrow> rnd' = rnd \<Longrightarrow> P av fin pos k" for m' rnd'
  proof (induction av fin pos m' rnd' k rule: buildDrill.induct)
  case (1 av fin pos m' rnd' k)
  note eqs = \<open>m' = m\<close> \<open>rnd' = rnd\<close>
  show ?case
  proof (cases "av = [] \<or> validMoveIndices av pos m = []")
    case True
    then show ?thesis by (rule assms(1))
  next
    case False
    define i where "i = chosenIndex av pos m (rnd k)"
    from False have mem: "i \<in> set (validMoveIndices av pos m)"
      unfolding i_def by (simp add: chosenIndex_valid)
    have "P (spliceOut i av) (fin @ [av ! i]) (applyCommand pos (av ! i)) (k + 1)"
      using False "1.IH" [OF _ _ refl refl refl] eqs unfolding i_def chosenIndex_def by blast
    then show ?thesis
      using assms(2) [OF i_def validMoveIndices_bound [OF mem] validMoveIndices_valid [OF mem]]
        buildDrill_step [of av pos m fin rnd k] False i_def by simp
  qed
  qed
  then show ?thesis by simp
qed

lemma buildDrill_mset:
  "\<exists>rest. mset (fst (buildDrill av fin pos m rnd k)) + mset rest = mset fin + mset av"
proof (induction av fin pos k rule: buildDrill_cases [where m = m and rnd = rnd])
  case (stop av fin pos k)
  then show ?case by (auto simp add: buildDrill_stop)
next
  case (step av fin pos k i)
  then obtain rest where
    "mset (fst (buildDrill av fin pos m rnd k)) + mset rest
       = mset (fin @ [av ! i]) + mset (spliceOut i av)"
    by auto
  then have "mset (fst (buildDrill av fin pos m rnd k)) + mset rest = mset fin + mset av"
    using spliceOut_mset [OF step(2)] by simp
  then show ?case by blast
qed

lemma buildDrill_complete_mset:
  assumes "length (fst (buildDrill av [] pos m rnd k)) = length av"
  shows "mset (fst (buildDrill av [] pos m rnd k)) = mset av"
proof -
  obtain rest where r: "mset (fst (buildDrill av [] pos m rnd k)) + mset rest = mset [] + mset av"
    using buildDrill_mset by blast
  then have "size (mset (fst (buildDrill av [] pos m rnd k)) + mset rest) = size (mset av)"
    by simp
  then have "rest = []" using assms by simp
  then show ?thesis using r by simp
qed

lemma applyCommand_within:
  assumes "withinBound m pos" "isMoveValid c (fst pos) (snd pos) m" "0 \<le> val c"
  shows "withinBound m (applyCommand pos c)"
  using assms
  by (cases pos; cases "direction c")
     (simp_all add: withinBound_def isMoveValid_def applyCommand_def)

lemma buildDrill_prefix_bound:
  assumes "\<forall>c \<in> set av. 0 \<le> val c"
    and "pos = positionAfter fin"
    and "\<forall>p. prefix p fin \<longrightarrow> withinBound m (positionAfter p)"
    and "prefix p (fst (buildDrill av fin pos m rnd k))"
  shows "withinBound m (positionAfter p)"
  using assms
proof (induction av fin pos k rule: buildDrill_cases [where m = m and rnd = rnd])
  case (stop av fin pos k)
  then show ?case by (simp add: buildDrill_stop)
next
  case (step av fin pos k i)
  have mem: "av ! i \<in> set av" using step(2) by simp
  have "set (spliceOut i av) \<subseteq> set av"
    unfolding spliceOut_def by (auto dest: in_set_takeD in_set_dropD)
  then have a: "\<forall>c \<in> set (spliceOut i av). 0 \<le> val c" using step.prems(1) by blast
  have b: "applyCommand pos (av ! i) = positionAfter (fin @ [av ! i])"
    using step.prems(2) by (simp add: positionAfter_def)
  have "withinBound m pos" using step.prems(2,3) by auto
  then have w: "withinBound m (applyCommand pos (av ! i))"
    using applyCommand_within step(3) step.prems(1) mem by blast
  have c: "\<forall>p. prefix p (fin @ [av ! i]) \<longrightarrow> withinBound m (positionAfter p)"
    using step.prems(3) w b by (auto simp add: prefix_snoc)
  show ?case using step.IH [OF a b c] step.prems(4) step(4) by simp
qed

lemma sum_list_spliceOut:
  "i < length xs \<Longrightarrow> sum_list (map f (spliceOut i xs)) + f (xs ! i) = (sum_list (map f xs) :: int)"
proof -
  assume "i < length xs"
  then have "xs = take i xs @ (xs ! i) # drop (Suc i) xs"
    by (simp add: id_take_nth_drop)
  then have "sum_list (map f xs) = sum_list (map f (take i xs @ (xs ! i) # drop (Suc i) xs))"
    by simp
  then show ?thesis by (simp add: spliceOut_def)
qed

lemma member_le_sum_list_int:
  "\<forall>c \<in> set xs. 0 \<le> f c \<Longrightarrow> c \<in> set xs \<Longrightarrow> f c \<le> (sum_list (map f xs) :: int)"
proof (induction xs)
  case Nil
  then show ?case by simp
next
  case (Cons x xs)
  have "0 \<le> sum_list (map f xs)" using Cons.prems(1) by (intro sum_list_nonneg) auto
  then show ?case using Cons by auto
qed

lemma validMoveIndices_all:
  assumes "\<forall>c \<in> set av. isMoveValid c (fst pos) (snd pos) m" "av \<noteq> []"
  shows "validMoveIndices av pos m \<noteq> []"
proof -
  have "0 \<in> set (validMoveIndices av pos m)"
    using assms by (simp add: validMoveIndices_def)
  then show ?thesis by auto
qed

lemma buildDrill_never_stuck:
  assumes "\<forall>c \<in> set av. 0 \<le> val c"
    and "\<bar>fst pos\<bar> + sum_list (map val av) \<le> m"
    and "\<bar>snd pos\<bar> + sum_list (map val av) \<le> m"
  shows "length (fst (buildDrill av fin pos m rnd k)) = length fin + length av"
  using assms
proof (induction av fin pos k rule: buildDrill_cases [where m = m and rnd = rnd])
  case (stop av fin pos k)
  have "av = []"
  proof (rule ccontr)
    assume ne: "av \<noteq> []"
    have "\<forall>c \<in> set av. isMoveValid c (fst pos) (snd pos) m"
    proof
      fix c assume c: "c \<in> set av"
      then have "val c \<le> sum_list (map val av)"
        using stop.prems(1) by (simp add: member_le_sum_list_int)
      moreover have "0 \<le> val c" using c stop.prems(1) by simp
      ultimately show "isMoveValid c (fst pos) (snd pos) m"
        using stop.prems(2,3) by (cases "direction c") (simp_all add: isMoveValid_def)
    qed
    then show False using stop.hyps ne validMoveIndices_all by blast
  qed
  then show ?case by (simp add: buildDrill_stop)
next
  case (step av fin pos k i)
  have mem: "av ! i \<in> set av" using step(2) by simp
  then have nn: "0 \<le> val (av ! i)" using step.prems(1) by simp
  have "set (spliceOut i av) \<subseteq> set av"
    unfolding spliceOut_def by (auto dest: in_set_takeD in_set_dropD)
  then have a: "\<forall>c \<in> set (spliceOut i av). 0 \<le> val c" using step.prems(1) by blast
  have s: "sum_list (map val (spliceOut i av)) + val (av ! i) = sum_list (map val av)"
    using step(2) by (rule sum_list_spliceOut)
  have b: "\<bar>fst (applyCommand pos (av ! i))\<bar> + sum_list (map val (spliceOut i av)) \<le> m"
    using step.prems(2) s nn
    by (cases pos; cases "direction (av ! i)") (simp_all add: applyCommand_def)
  have c: "\<bar>snd (applyCommand pos (av ! i))\<bar> + sum_list (map val (spliceOut i av)) \<le> m"
    using step.prems(3) s nn
    by (cases pos; cases "direction (av ! i)") (simp_all add: applyCommand_def)
  have "length (spliceOut i av) = length av - 1" using step(2) by (rule length_spliceOut)
  then show ?case using step.IH [OF a b c] step(2,4) by simp
qed



lemma generatePositive_length:
  "length (fst (generatePositive n cv acc rnd k)) = length acc + n"
  by (induction n arbitrary: acc k) (simp_all add: Let_def)

lemma generatePositive_members:
  assumes "cv \<noteq> []"
    and "c \<in> set (fst (generatePositive n cv acc rnd k))"
  shows "c \<in> set acc \<or> (val c \<in> set cv \<and> (direction c = Up \<or> direction c = Right))"
  using assms(2)
proof (induction n arbitrary: acc k)
  case 0
  then show ?case by simp
next
  case (Suc n)
  have "cv ! randomIndex (rnd k) (length cv) \<in> set cv"
    using assms(1) by (simp add: randomIndex_less)
  then show ?case using Suc.IH Suc.prems by (fastforce simp add: Let_def)
qed

lemma totalCommandsOf_even: "even (totalCommandsOf n)"
  by (auto simp add: totalCommandsOf_def signed_modulo_int_def sgn_if abs_if
      split: if_splits)

lemma totalCommandsOf_eq: "totalCommandsOf n = (if even n then n else n + 1)"
  by (auto simp add: totalCommandsOf_def signed_modulo_int_def sgn_if abs_if
      split: if_splits)

lemma halfCommandsOf_total:
  "0 \<le> totalCommandsOf n \<Longrightarrow> 2 * halfCommandsOf (totalCommandsOf n) = totalCommandsOf n"
  using totalCommandsOf_even [of n]
  by (auto simp add: halfCommandsOf_def signed_divide_int_def sgn_if)

lemma attemptLoop_cases:
  "(drill (attemptLoop a n cv m rnd k) = []) \<or>
   (\<exists>k0 k1. drill (attemptLoop a n cv m rnd k)
               = fst (buildDrill (pooledCommands n cv rnd k0) [] (0, 0) m rnd k1)
           \<and> int (length (drill (attemptLoop a n cv m rnd k))) = totalCommandsOf n)"
proof (induction a n cv m rnd k rule: attemptLoop.induct)
  case (1 a n cv m rnd k)
  show ?case
  proof (cases "a < MAX_GENERATION_ATTEMPTS")
    case False
    then show ?thesis by (simp add: attemptLoop.simps [of a])
  next
    case True
    obtain ps k1 where g: "generatePositive (nat (halfCommandsOf (totalCommandsOf n))) cv [] rnd k = (ps, k1)"
      by (cases "generatePositive (nat (halfCommandsOf (totalCommandsOf n))) cv [] rnd k")
    obtain fd k2 where b: "buildDrill (ps @ map negativeOf ps) [] (0, 0) m rnd k1 = (fd, k2)"
      by (cases "buildDrill (ps @ map negativeOf ps) [] (0, 0) m rnd k1")
    have pool: "pooledCommands n cv rnd k = ps @ map negativeOf ps"
      by (simp add: pooledCommands_def g)
    show ?thesis
    proof (cases "int (length fd) = totalCommandsOf n")
      case yes: True
      have "attemptLoop a n cv m rnd k = \<lparr>drill = fd, attempts = a + 1, errorLogged = False\<rparr>"
        using True g b yes by (simp add: attemptLoop.simps [of a])
      then show ?thesis using yes b pool by (metis GenerationResult.select_convs(1) fst_conv)
    next
      case no: False
      have "attemptLoop a n cv m rnd k = attemptLoop (a + 1) n cv m rnd k2"
        using True g b no by (simp add: attemptLoop.simps [of a])
      then show ?thesis
        using "1.IH" True g b no by simp
    qed
  qed
qed



lemma generateDrill_cases:
  "drill (generateDrill n cv m rnd) = [] \<or>
   (cv \<noteq> [] \<and> (\<forall>v \<in> set cv. v \<le> m) \<and>
    (\<exists>k0 k1. drill (generateDrill n cv m rnd)
                 = fst (buildDrill (pooledCommands n cv rnd k0) [] (0, 0) m rnd k1)
             \<and> length (drill (generateDrill n cv m rnd)) = length (pooledCommands n cv rnd k0))
    \<and> int (length (drill (generateDrill n cv m rnd))) = totalCommandsOf n)"
proof (cases "cv = [] \<or> (\<exists>v \<in> set cv. v > m)")
  case True
  then show ?thesis by (simp add: generateDrill_def)
next
  case False
  then have eq: "generateDrill n cv m rnd = attemptLoop 0 n cv m rnd 0"
    by (simp add: generateDrill_def)
  show ?thesis
  proof (cases "drill (generateDrill n cv m rnd) = []")
    case True
    then show ?thesis by simp
  next
    case ne: False
    then obtain k0 k1 where
      out: "drill (generateDrill n cv m rnd)
              = fst (buildDrill (pooledCommands n cv rnd k0) [] (0, 0) m rnd k1)"
      and len: "int (length (drill (generateDrill n cv m rnd))) = totalCommandsOf n"
      using attemptLoop_cases [of 0 n cv m rnd 0] eq by auto
    have "0 \<le> totalCommandsOf n" using len by linarith
    then have "2 * halfCommandsOf (totalCommandsOf n) = totalCommandsOf n"
      by (rule halfCommandsOf_total)
    moreover from this \<open>0 \<le> totalCommandsOf n\<close>
    have "0 \<le> halfCommandsOf (totalCommandsOf n)" by linarith
    ultimately have "int (length (pooledCommands n cv rnd k0)) = totalCommandsOf n"
      by (simp add: pooledCommands_def Let_def generatePositive_length)
    then have "length (drill (generateDrill n cv m rnd)) = length (pooledCommands n cv rnd k0)"
      using len by linarith
    then show ?thesis using False out len by auto
  qed
qed

lemma pooledCommands_members:
  assumes "cv \<noteq> []" and "c \<in> set (pooledCommands n cv rnd k)"
  shows "val c \<in> set cv"
  using assms generatePositive_members [OF assms(1), of _ _ "[]" rnd k]
  by (auto simp add: pooledCommands_def Let_def negativeOf_def)

lemma mirrored_sums:
  assumes "\<forall>c \<in> set ps. direction c = Up \<or> direction c = Right"
  shows "sum_list (map elevationDelta (ps @ map negativeOf ps)) = 0"
    and "sum_list (map traverseDelta (ps @ map negativeOf ps)) = 0"
  using assms
  by (induction ps) (auto simp add: elevationDelta_def traverseDelta_def negativeOf_def)

lemma pooledCommands_sums:
  assumes "cv \<noteq> []"
  shows "sum_list (map elevationDelta (pooledCommands n cv rnd k)) = 0"
    and "sum_list (map traverseDelta (pooledCommands n cv rnd k)) = 0"
proof -
  define ps where "ps = fst (generatePositive (nat (halfCommandsOf (totalCommandsOf n))) cv [] rnd k)"
  have "\<forall>c \<in> set ps. direction c = Up \<or> direction c = Right"
    using generatePositive_members [OF assms, of _ _ "[]" rnd k] unfolding ps_def by auto
  then show "sum_list (map elevationDelta (pooledCommands n cv rnd k)) = 0"
    and "sum_list (map traverseDelta (pooledCommands n cv rnd k)) = 0"
    unfolding pooledCommands_def Let_def ps_def [symmetric] by (rule mirrored_sums)+
qed

lemma sum_list_mset_cong:
  assumes "mset xs = mset ys"
  shows "sum_list (map f xs) = (sum_list (map f ys) :: int)"
proof -
  have "mset (map f xs) = mset (map f ys)" using assms by simp
  then have "sum_mset (mset (map f xs)) = sum_mset (mset (map f ys))" by (rule arg_cong)
  then show ?thesis by (simp only: sum_mset_sum_list)
qed

lemma generateDrill_sums:
  "sum_list (map elevationDelta (drill (generateDrill n cv m rnd))) = 0"
  "sum_list (map traverseDelta (drill (generateDrill n cv m rnd))) = 0"
proof -
  consider (empty) "drill (generateDrill n cv m rnd) = []"
    | (ok) k0 k1 where "cv \<noteq> []"
        "drill (generateDrill n cv m rnd)
           = fst (buildDrill (pooledCommands n cv rnd k0) [] (0, 0) m rnd k1)"
        "length (drill (generateDrill n cv m rnd)) = length (pooledCommands n cv rnd k0)"
    using generateDrill_cases [of n cv m rnd] by blast
  then have "sum_list (map elevationDelta (drill (generateDrill n cv m rnd))) = 0
     \<and> sum_list (map traverseDelta (drill (generateDrill n cv m rnd))) = 0"
  proof cases
    case empty
    then show ?thesis by simp
  next
    case ok
    have "mset (drill (generateDrill n cv m rnd)) = mset (pooledCommands n cv rnd k0)"
      using buildDrill_complete_mset [of "pooledCommands n cv rnd k0" "(0, 0)" m rnd k1] ok(2,3)
      by simp
    then show ?thesis
      using sum_list_mset_cong [of "drill (generateDrill n cv m rnd)" "pooledCommands n cv rnd k0"]
        pooledCommands_sums [OF ok(1), of n rnd k0] by simp
  qed
  then show "sum_list (map elevationDelta (drill (generateDrill n cv m rnd))) = 0"
    and "sum_list (map traverseDelta (drill (generateDrill n cv m rnd))) = 0"
    by simp_all
qed

lemma generateDrill_values:
  assumes "c \<in> set (drill (generateDrill n cv m rnd))"
  shows "val c \<in> set cv"
proof -
  from assms have "drill (generateDrill n cv m rnd) \<noteq> []" by auto
  then obtain k0 k1 where ok: "cv \<noteq> []"
      "drill (generateDrill n cv m rnd)
         = fst (buildDrill (pooledCommands n cv rnd k0) [] (0, 0) m rnd k1)"
      "length (drill (generateDrill n cv m rnd)) = length (pooledCommands n cv rnd k0)"
    using generateDrill_cases [of n cv m rnd] by blast
  have "mset (drill (generateDrill n cv m rnd)) = mset (pooledCommands n cv rnd k0)"
    using buildDrill_complete_mset [of "pooledCommands n cv rnd k0" "(0, 0)" m rnd k1] ok(2,3)
    by simp
  then have "set (drill (generateDrill n cv m rnd)) = set (pooledCommands n cv rnd k0)"
    by (rule mset_eq_setD)
  then show ?thesis using assms pooledCommands_members [OF ok(1)] by blast
qed

lemma generateDrill_prefixes:
  assumes "\<forall>v \<in> set cv. 0 \<le> v"
    and "drill (generateDrill n cv m rnd) \<noteq> []"
    and "prefix p (drill (generateDrill n cv m rnd))"
  shows "withinBound m (positionAfter p)"
proof -
  from assms(2) obtain k0 k1 where ok: "cv \<noteq> []" "\<forall>v \<in> set cv. v \<le> m"
      "drill (generateDrill n cv m rnd)
         = fst (buildDrill (pooledCommands n cv rnd k0) [] (0, 0) m rnd k1)"
    using generateDrill_cases [of n cv m rnd] by blast
  from ok(1) obtain v where "v \<in> set cv" by (cases cv) auto
  then have m0: "0 \<le> m" using assms(1) ok(2) by force
  have a: "\<forall>c \<in> set (pooledCommands n cv rnd k0). 0 \<le> val c"
    using pooledCommands_members [OF ok(1)] assms(1) by blast
  have b: "(0, 0) = positionAfter []" by (simp add: positionAfter_def)
  have c: "\<forall>p. prefix p [] \<longrightarrow> withinBound m (positionAfter p)"
    using m0 by (simp add: positionAfter_def withinBound_def)
  show ?thesis
    using buildDrill_prefix_bound [OF a b c] assms(3) ok(3) by simp
qed



lemma foldl_applyCommand:
  "foldl applyCommand (t, e) cs
     = (t + sum_list (map traverseDelta cs), e + sum_list (map elevationDelta cs))"
  by (induction cs arbitrary: t e)
     (auto simp add: applyCommand_def traverseDelta_def elevationDelta_def split: Direction.splits)

lemma positionAfter_sums:
  "positionAfter cs = (sum_list (map traverseDelta cs), sum_list (map elevationDelta cs))"
  by (simp add: positionAfter_def foldl_applyCommand)

lemma sum_list_le_length_times:
  "\<forall>c \<in> set xs. f c \<le> B \<Longrightarrow> sum_list (map f xs) \<le> int (length xs) * (B :: int)"
  by (induction xs) (auto simp add: algebra_simps)

lemma first_attempt_succeeds:
  assumes ne: "cv \<noteq> []"
    and vrange: "\<forall>v \<in> set cv. 0 \<le> v \<and> v \<le> m"
    and room: "\<forall>v \<in> set cv. v * totalCommandsOf n \<le> m"
    and tot: "0 \<le> totalCommandsOf n"
  shows "int (length (drill (generateDrill n cv m rnd))) = totalCommandsOf n"
    and "attempts (generateDrill n cv m rnd) = 1"
proof -
  obtain ps k1 where g: "generatePositive (nat (halfCommandsOf (totalCommandsOf n))) cv [] rnd 0 = (ps, k1)"
    by (cases "generatePositive (nat (halfCommandsOf (totalCommandsOf n))) cv [] rnd 0")
  obtain fd k2 where b: "buildDrill (ps @ map negativeOf ps) [] (0, 0) m rnd k1 = (fd, k2)"
    by (cases "buildDrill (ps @ map negativeOf ps) [] (0, 0) m rnd k1")
  have pool: "pooledCommands n cv rnd 0 = ps @ map negativeOf ps"
    by (simp add: pooledCommands_def g)
  have half: "2 * halfCommandsOf (totalCommandsOf n) = totalCommandsOf n"
    using tot by (rule halfCommandsOf_total)
  with tot have "0 \<le> halfCommandsOf (totalCommandsOf n)" by linarith
  with half have len: "int (length (ps @ map negativeOf ps)) = totalCommandsOf n"
    using generatePositive_length [of "nat (halfCommandsOf (totalCommandsOf n))" cv "[]" rnd 0] g
    by simp
  define B where "B = Max (set cv)"
  have Bin: "B \<in> set cv" unfolding B_def using ne by (intro Max_in) auto
  have vals: "\<forall>c \<in> set (ps @ map negativeOf ps). val c \<in> set cv"
    using pooledCommands_members [OF ne, of _ n rnd 0] pool by simp
  then have "\<forall>c \<in> set (ps @ map negativeOf ps). val c \<le> B"
    unfolding B_def by (auto intro: Max_ge)
  then have "sum_list (map val (ps @ map negativeOf ps)) \<le> int (length (ps @ map negativeOf ps)) * B"
    by (rule sum_list_le_length_times)
  also have "\<dots> = B * totalCommandsOf n" using len by (simp add: mult.commute)
  also have "\<dots> \<le> m" using room Bin by blast
  finally have s: "sum_list (map val (ps @ map negativeOf ps)) \<le> m" .
  have nn: "\<forall>c \<in> set (ps @ map negativeOf ps). 0 \<le> val c"
    using vals vrange by blast
  have "length (fst (buildDrill (ps @ map negativeOf ps) [] (0, 0) m rnd k1))
          = length ([] :: DrillCommand list) + length (ps @ map negativeOf ps)"
    using s by (intro buildDrill_never_stuck [OF nn]) simp_all
  then have fdlen: "int (length fd) = totalCommandsOf n" using b len by simp
  have guard: "\<not> (cv = [] \<or> (\<exists>v \<in> set cv. v > m))" using ne vrange by auto
  have "generateDrill n cv m rnd = \<lparr>drill = fd, attempts = 1, errorLogged = False\<rparr>"
    using guard g b fdlen
    by (simp add: generateDrill_def attemptLoop.simps [of 0] MAX_GENERATION_ATTEMPTS_def)
  then show "int (length (drill (generateDrill n cv m rnd))) = totalCommandsOf n"
    and "attempts (generateDrill n cv m rnd) = 1"
    using fdlen by simp_all
qed

section \<open>Claims about the drill generator\<close>

lemma example_run:
  "drill (generateDrill 4 [5] 25 (\<lambda>_. 0)) =
     [\<lparr>direction = Up, val = 5\<rparr>, \<lparr>direction = Up, val = 5\<rparr>,
      \<lparr>direction = Down, val = 5\<rparr>, \<lparr>direction = Down, val = 5\<rparr>]"
  by code_simp

lemma example_run_mixed:
  "drill (generateDrill 5 [5, 10] 12 (\<lambda>k. k * k + 1)) =
     [\<lparr>direction = Up, val = 10\<rparr>, \<lparr>direction = Down, val = 10\<rparr>,
      \<lparr>direction = Up, val = 10\<rparr>, \<lparr>direction = Down, val = 10\<rparr>,
      \<lparr>direction = Down, val = 10\<rparr>, \<lparr>direction = Up, val = 10\<rparr>]"
  by code_simp

lemma example_run_two_axes:
  "drill (generateDrill 4 [5, 10] 12 (\<lambda>k. k)) =
     [\<lparr>direction = Right, val = 5\<rparr>, \<lparr>direction = Left, val = 5\<rparr>,
      \<lparr>direction = Right, val = 5\<rparr>, \<lparr>direction = Left, val = 5\<rparr>]"
  by code_simp

text \<open>
  Outside the data model, with a negative click value, a successful sequence can leave the
  bound: \<open>isMoveValid\<close> checks one side of the interval only.
\<close>

lemma negative_click_value_remark:
  "drill (generateDrill 2 [- 30] 25 (\<lambda>_. 0))
     = [\<lparr>direction = Up, val = - 30\<rparr>, \<lparr>direction = Down, val = - 30\<rparr>]
   \<and> positionAfter [\<lparr>direction = Up, val = - 30\<rparr>] = (0, - 30)"
  by code_simp

text \<open>
  C1. A configuration has positive click values (the data model; the application keeps only
  the parsed values above zero). For every such configuration and every outcome of the random
  choices on which \<open>generateDrill\<close> returns a non-empty sequence, every prefix of that
  sequence, applied as signed deltas from \<open>(0, 0)\<close>, keeps traverse and elevation within
  \<open>[-maxTAndE, maxTAndE]\<close>: the signed sum of the traverse magnitudes of the prefix (Right
  positive, Left negative) and the signed sum of its elevation magnitudes (Up positive, Down
  negative) both lie in that interval.
\<close>

theorem generateDrill_prefix_within_bound:
  assumes "\<forall>v \<in> set clickValues. 0 < v"
    and "drill (generateDrill numCommands clickValues bound rnd) \<noteq> []"
    and "prefix p (drill (generateDrill numCommands clickValues bound rnd))"
  shows "- bound \<le> sum_list (map traverseDelta p) \<and> sum_list (map traverseDelta p) \<le> bound
    \<and> - bound \<le> sum_list (map elevationDelta p) \<and> sum_list (map elevationDelta p) \<le> bound"
proof -
  have "\<forall>v \<in> set clickValues. 0 \<le> v" using assms(1) by force
  then have "withinBound bound (positionAfter p)"
    using assms(2,3) by (rule generateDrill_prefixes)
  then show ?thesis by (simp add: withinBound_def positionAfter_sums)
qed

theorem generateDrill_prefix_within_bound_witness:
  "(0 :: int) < 5 \<and> (0 :: int) < 10
   \<and> drill (generateDrill 4 [5, 10] 12 (\<lambda>k. k)) \<noteq> []
   \<and> prefix [\<lparr>direction = Right, val = 5\<rparr>, \<lparr>direction = Left, val = 5\<rparr>,
        \<lparr>direction = Right, val = 5\<rparr>] (drill (generateDrill 4 [5, 10] 12 (\<lambda>k. k)))
   \<and> sum_list (map traverseDelta [\<lparr>direction = Right, val = 5\<rparr>,
        \<lparr>direction = Left, val = 5\<rparr>, \<lparr>direction = Right, val = 5\<rparr>]) = 5
   \<and> sum_list (map elevationDelta [\<lparr>direction = Right, val = 5\<rparr>,
        \<lparr>direction = Left, val = 5\<rparr>, \<lparr>direction = Right, val = 5\<rparr>]) = 0
   \<and> - 12 \<le> sum_list (map traverseDelta [\<lparr>direction = Right, val = 5\<rparr>,
        \<lparr>direction = Left, val = 5\<rparr>, \<lparr>direction = Right, val = 5\<rparr>])
   \<and> sum_list (map traverseDelta [\<lparr>direction = Right, val = 5\<rparr>,
        \<lparr>direction = Left, val = 5\<rparr>, \<lparr>direction = Right, val = 5\<rparr>]) \<le> 12
   \<and> - 12 \<le> sum_list (map elevationDelta [\<lparr>direction = Right, val = 5\<rparr>,
        \<lparr>direction = Left, val = 5\<rparr>, \<lparr>direction = Right, val = 5\<rparr>])
   \<and> sum_list (map elevationDelta [\<lparr>direction = Right, val = 5\<rparr>,
        \<lparr>direction = Left, val = 5\<rparr>, \<lparr>direction = Right, val = 5\<rparr>]) \<le> 12"
proof -
  have a: "\<forall>v \<in> set [5, 10 :: int]. 0 < v" by simp
  have b: "drill (generateDrill 4 [5, 10] 12 (\<lambda>k. k)) \<noteq> []"
    by (simp add: example_run_two_axes)
  have c: "prefix [\<lparr>direction = Right, val = 5\<rparr>, \<lparr>direction = Left, val = 5\<rparr>,
        \<lparr>direction = Right, val = 5\<rparr>] (drill (generateDrill 4 [5, 10] 12 (\<lambda>k. k)))"
    by (simp add: example_run_two_axes)
  have d1: "(0 :: int) < 5" and d2: "(0 :: int) < 10" by simp_all
  have t: "sum_list (map traverseDelta [\<lparr>direction = Right, val = 5\<rparr>,
        \<lparr>direction = Left, val = 5\<rparr>, \<lparr>direction = Right, val = 5\<rparr>]) = 5"
    by (simp add: traverseDelta_def)
  have e: "sum_list (map elevationDelta [\<lparr>direction = Right, val = 5\<rparr>,
        \<lparr>direction = Left, val = 5\<rparr>, \<lparr>direction = Right, val = 5\<rparr>]) = 0"
    by (simp add: elevationDelta_def)
  note w = generateDrill_prefix_within_bound [OF a b c]
  show ?thesis
    by (intro conjI d1 d2 b c t e w [THEN conjunct1] w [THEN conjunct2, THEN conjunct1]
        w [THEN conjunct2, THEN conjunct2, THEN conjunct1]
        w [THEN conjunct2, THEN conjunct2, THEN conjunct2])
qed

text \<open>
  C2. Whenever \<open>generateDrill\<close> returns a non-empty sequence, the signed sum of its
  elevation magnitudes (Up positive, Down negative) is 0 and the signed sum of its traverse
  magnitudes (Right positive, Left negative) is 0.
\<close>

theorem generateDrill_zero_sum:
  assumes "drill (generateDrill numCommands clickValues bound rnd) \<noteq> []"
  shows "sum_list (map elevationDelta (drill (generateDrill numCommands clickValues bound rnd))) = 0
    \<and> sum_list (map traverseDelta (drill (generateDrill numCommands clickValues bound rnd))) = 0"
  by (simp add: generateDrill_sums)

theorem generateDrill_zero_sum_witness:
  "drill (generateDrill 4 [5] 25 (\<lambda>_. 0)) \<noteq> []
   \<and> sum_list (map elevationDelta (drill (generateDrill 4 [5] 25 (\<lambda>_. 0)))) = 0
   \<and> sum_list (map traverseDelta (drill (generateDrill 4 [5] 25 (\<lambda>_. 0)))) = 0"
proof -
  have a: "drill (generateDrill 4 [5] 25 (\<lambda>_. 0)) \<noteq> []" by (simp add: example_run)
  show ?thesis using a generateDrill_zero_sum [OF a] by blast
qed

text \<open>
  C3. Whenever \<open>generateDrill\<close> returns a non-empty sequence, its length is \<open>numCommands\<close>
  rounded up to an even number: \<open>numCommands\<close> when even, \<open>numCommands + 1\<close> when odd.
\<close>

theorem generateDrill_length:
  assumes "drill (generateDrill numCommands clickValues bound rnd) \<noteq> []"
  shows "int (length (drill (generateDrill numCommands clickValues bound rnd)))
           = (if even numCommands then numCommands else numCommands + 1)"
  using assms generateDrill_cases [of numCommands clickValues bound rnd]
  by (simp add: totalCommandsOf_eq)

theorem generateDrill_length_witness:
  "drill (generateDrill 5 [5, 10] 12 (\<lambda>k. k * k + 1)) \<noteq> []
   \<and> int (length (drill (generateDrill 5 [5, 10] 12 (\<lambda>k. k * k + 1)))) = 6"
proof -
  have a: "drill (generateDrill 5 [5, 10] 12 (\<lambda>k. k * k + 1)) \<noteq> []"
    unfolding example_run_mixed by simp
  have "int (length (drill (generateDrill 5 [5, 10] 12 (\<lambda>k. k * k + 1))))
          = (if even (5 :: int) then 5 else 5 + 1)"
    using a by (rule generateDrill_length)
  then have "int (length (drill (generateDrill 5 [5, 10] 12 (\<lambda>k. k * k + 1)))) = 6"
    by (simp only: refl) simp
  then show ?thesis using a by blast
qed

text \<open>
  C4. When \<open>clickValues\<close> is empty or holds a value above \<open>maxTAndE\<close>, \<open>generateDrill\<close>
  returns the empty sequence and no iteration of the retry loop is started.
\<close>

theorem generateDrill_infeasible:
  assumes "clickValues = [] \<or> (\<exists>v \<in> set clickValues. v > bound)"
  shows "drill (generateDrill numCommands clickValues bound rnd) = []
    \<and> attempts (generateDrill numCommands clickValues bound rnd) = 0"
  using assms by (simp add: generateDrill_def)

theorem generateDrill_infeasible_witness:
  "([5, 30] = [] \<or> (\<exists>v \<in> set [5, 30 :: int]. v > 25))
   \<and> drill (generateDrill 4 [5, 30] 25 (\<lambda>k. k)) = []
   \<and> attempts (generateDrill 4 [5, 30] 25 (\<lambda>k. k)) = 0
   \<and> drill (generateDrill 4 [] 25 (\<lambda>k. k)) = []
   \<and> attempts (generateDrill 4 [] 25 (\<lambda>k. k)) = 0"
proof -
  have a: "[5, 30] = [] \<or> (\<exists>v \<in> set [5, 30 :: int]. v > 25)" by simp
  have b: "([] :: int list) = [] \<or> (\<exists>v \<in> set ([] :: int list). v > 25)" by simp
  show ?thesis
    using a generateDrill_infeasible [OF a, of 4 "\<lambda>k. k"]
      generateDrill_infeasible [OF b, of 4 "\<lambda>k. k"] by blast
qed

text \<open>
  C5. \<open>isMoveValid\<close> is a function of the position, the command and the bound, defined for
  every input, and it is true exactly when: Up, elevation + magnitude \<open>\<le>\<close> bound; Down,
  elevation - magnitude \<open>\<ge>\<close> -bound; Left, traverse - magnitude \<open>\<ge>\<close> -bound; Right,
  traverse + magnitude \<open>\<le>\<close> bound. From traverse 20 and elevation 0 with bound 25, Right 10
  is invalid and Right 5 is valid.
\<close>

theorem isMoveValid_conditions:
  "isMoveValid \<lparr>direction = Up, val = v\<rparr> t e b = (e + v \<le> b)
   \<and> isMoveValid \<lparr>direction = Down, val = v\<rparr> t e b = (e - v \<ge> - b)
   \<and> isMoveValid \<lparr>direction = Left, val = v\<rparr> t e b = (t - v \<ge> - b)
   \<and> isMoveValid \<lparr>direction = Right, val = v\<rparr> t e b = (t + v \<le> b)
   \<and> isMoveValid \<lparr>direction = Right, val = 10\<rparr> 20 0 25 = False
   \<and> isMoveValid \<lparr>direction = Right, val = 5\<rparr> 20 0 25 = True"
  by (simp add: isMoveValid_def)

text \<open>
  C6. For \<open>numCommands = 4\<close>, \<open>clickValues = [5]\<close>, \<open>maxTAndE = 25\<close> and every outcome of
  the random choices, \<open>generateDrill\<close> returns exactly 4 commands, each of magnitude 5, with
  net displacement \<open>(0, 0)\<close> and every prefix position within 25 on both axes; the result is
  never empty.
\<close>

theorem scenario_four_commands:
  "length (drill (generateDrill 4 [5] 25 rnd)) = 4
   \<and> (\<forall>c \<in> set (drill (generateDrill 4 [5] 25 rnd)). val c = 5)
   \<and> positionAfter (drill (generateDrill 4 [5] 25 rnd)) = (0, 0)
   \<and> (\<forall>p. prefix p (drill (generateDrill 4 [5] 25 rnd)) \<longrightarrow> withinBound 25 (positionAfter p))
   \<and> drill (generateDrill 4 [5] 25 rnd) \<noteq> []"
proof -
  have t: "totalCommandsOf 4 = 4" by (simp add: totalCommandsOf_eq)
  have len: "int (length (drill (generateDrill 4 [5] 25 rnd))) = 4"
    using first_attempt_succeeds(1) [of "[5]" 25 4 rnd] t by simp
  then have l4: "length (drill (generateDrill 4 [5] 25 rnd)) = 4" by linarith
  then have ne: "drill (generateDrill 4 [5] 25 rnd) \<noteq> []" by auto
  have vals: "\<forall>c \<in> set (drill (generateDrill 4 [5] 25 rnd)). val c = 5"
    using generateDrill_values [of _ 4 "[5]" 25 rnd] by auto
  have zero: "positionAfter (drill (generateDrill 4 [5] 25 rnd)) = (0, 0)"
    by (simp add: positionAfter_sums generateDrill_sums)
  have pre: "\<forall>p. prefix p (drill (generateDrill 4 [5] 25 rnd)) \<longrightarrow> withinBound 25 (positionAfter p)"
    using generateDrill_prefixes [of "[5]" 4 25 rnd] ne by simp
  show ?thesis using l4 vals zero pre ne by blast
qed

theorem scenario_four_commands_witness:
  "\<lparr>direction = Right, val = 5\<rparr> \<in> set (drill (generateDrill 4 [5] 25 (\<lambda>k. 1)))
   \<and> val \<lparr>direction = Right, val = 5\<rparr> = 5
   \<and> prefix [\<lparr>direction = Right, val = 5\<rparr>, \<lparr>direction = Left, val = 5\<rparr>,
        \<lparr>direction = Left, val = 5\<rparr>] (drill (generateDrill 4 [5] 25 (\<lambda>k. 1)))
   \<and> withinBound 25 (positionAfter [\<lparr>direction = Right, val = 5\<rparr>,
        \<lparr>direction = Left, val = 5\<rparr>, \<lparr>direction = Left, val = 5\<rparr>])
   \<and> length (drill (generateDrill 4 [5] 25 (\<lambda>k. 1))) = 4
   \<and> positionAfter (drill (generateDrill 4 [5] 25 (\<lambda>k. 1))) = (0, 0)"
proof -
  have run: "drill (generateDrill 4 [5] 25 (\<lambda>k. 1)) =
     [\<lparr>direction = Right, val = 5\<rparr>, \<lparr>direction = Left, val = 5\<rparr>,
      \<lparr>direction = Left, val = 5\<rparr>, \<lparr>direction = Right, val = 5\<rparr>]"
    by code_simp
  have a: "\<lparr>direction = Right, val = 5\<rparr> \<in> set (drill (generateDrill 4 [5] 25 (\<lambda>k. 1)))"
    unfolding run by simp
  have b: "prefix [\<lparr>direction = Right, val = 5\<rparr>, \<lparr>direction = Left, val = 5\<rparr>,
        \<lparr>direction = Left, val = 5\<rparr>] (drill (generateDrill 4 [5] 25 (\<lambda>k. 1)))"
    unfolding run by simp
  have c: "val \<lparr>direction = Right, val = 5\<rparr> = 5" by simp
  show ?thesis using a b c scenario_four_commands [of "\<lambda>k. 1"] by blast
qed

section \<open>Facts about keys, the cache and the rate\<close>

lemma digitChar_code: "a < 10 \<Longrightarrow> (of_char (digitChar a) :: nat) = 48 + a"
  unfolding digitChar_def by (simp only: of_char_of) simp

lemma digitChar_inj:
  assumes "a < 10" "b < 10" "digitChar a = digitChar b"
  shows "a = b"
proof -
  have "(of_char (digitChar a) :: nat) = of_char (digitChar b)"
    by (simp only: assms(3))
  then have "48 + a = 48 + b"
    by (simp only: digitChar_code [OF assms(1)] digitChar_code [OF assms(2)])
  then show ?thesis by linarith
qed

lemma minus_code: "(of_char (CHR ''-'') :: nat) = 45"
  by code_simp

lemma digitChar_not_minus: "a < 10 \<Longrightarrow> digitChar a \<noteq> CHR ''-''"
proof
  assume a: "a < 10" and eq: "digitChar a = CHR ''-''"
  have "(of_char (digitChar a) :: nat) = 48 + a" using a by (rule digitChar_code)
  then have "(45 :: nat) = 48 + a" by (simp only: eq minus_code)
  then show False by linarith
qed

lemma showNat_nonempty: "showNat n \<noteq> []"
  by (subst showNat.simps) simp

lemma showNat_hd: "hd (showNat n) \<noteq> CHR ''-''"
proof (induction n rule: showNat.induct)
  case (1 n)
  show ?case
  proof (cases "n < 10")
    case True
    then show ?thesis by (subst showNat.simps) (simp add: digitChar_not_minus)
  next
    case False
    then have "hd (showNat n) = hd (showNat (n div 10))"
      by (subst showNat.simps) (simp add: showNat_nonempty)
    then show ?thesis using 1 False by simp
  qed
qed

lemma showNat_inj: "showNat a = showNat b \<Longrightarrow> a = b"
proof (induction a arbitrary: b rule: showNat.induct)
  case (1 a)
  show ?case
  proof (cases "a < 10")
    case a: True
    show ?thesis
    proof (cases "b < 10")
      case True
      then show ?thesis using a "1.prems" digitChar_inj
        by (simp add: showNat.simps [of a] showNat.simps [of b])
    next
      case False
      then have "length (showNat b) = length (showNat (b div 10)) + 1"
        by (subst showNat.simps) simp
      moreover have "length (showNat a) = 1" using a by (subst showNat.simps) simp
      ultimately show ?thesis using "1.prems" showNat_nonempty [of "b div 10"] by simp
    qed
  next
    case a: False
    show ?thesis
    proof (cases "b < 10")
      case True
      have "length (showNat a) = length (showNat (a div 10)) + 1"
        using a by (subst showNat.simps) simp
      moreover have "length (showNat b) = 1" using True by (subst showNat.simps) simp
      ultimately show ?thesis using "1.prems" showNat_nonempty [of "a div 10"] by simp
    next
      case False
      have "showNat (a div 10) @ [digitChar (a mod 10)] = showNat (b div 10) @ [digitChar (b mod 10)]"
        using a False "1.prems" by (simp add: showNat.simps [of a] showNat.simps [of b])
      then have "showNat (a div 10) = showNat (b div 10)" "digitChar (a mod 10) = digitChar (b mod 10)"
        by simp_all
      then have "a div 10 = b div 10" "a mod 10 = b mod 10"
        using "1.IH" [OF a] digitChar_inj [of "a mod 10" "b mod 10"] by simp_all
      then show ?thesis by (metis div_mult_mod_eq)
    qed
  qed
qed

lemma numberToString_inj: "numberToString a = numberToString b \<Longrightarrow> a = b"
proof -
  assume eq: "numberToString a = numberToString b"
  have neg: "hd (numberToString i) = CHR ''-'' \<longleftrightarrow> i < 0" for i
    using showNat_hd [of "nat i"] by (simp add: numberToString_def)
  from eq have "a < 0 \<longleftrightarrow> b < 0" using neg by metis
  then show ?thesis using eq showNat_inj [of "nat a" "nat b"] showNat_inj [of "nat (- a)" "nat (- b)"]
    by (auto simp add: numberToString_def split: if_splits)
qed

lemma commandToKey_inj:
  "commandToKey \<lparr>direction = d, val = v\<rparr> = commandToKey \<lparr>direction = d', val = v'\<rparr>
     \<longleftrightarrow> d = d' \<and> v = v'"
  by (cases d; cases d') (auto simp add: commandToKey_def directionString_def dest: numberToString_inj)

lemma keyFor_inj: "keyFor d v = keyFor d' v' \<longleftrightarrow> d = d' \<and> v = v'"
  unfolding keyFor_def by (rule commandToKey_inj)

lemma preloadOne_cache:
  "utteranceCache (preloadOne v p d) = (utteranceCache p)(keyFor d v \<mapsto> cueFor d v)"
  by (simp add: preloadOne_def keyFor_def cueFor_def newUtterance_def Let_def)

lemma preloadValue_cache:
  "utteranceCache (foldl (preloadOne v) p directions) =
     (utteranceCache p)(keyFor Up v \<mapsto> cueFor Up v, keyFor Down v \<mapsto> cueFor Down v,
        keyFor Left v \<mapsto> cueFor Left v, keyFor Right v \<mapsto> cueFor Right v)"
  by (simp add: directions_def preloadOne_cache)

lemma preloadValue_lookup:
  "utteranceCache (foldl (preloadOne v) p directions) k =
     (if \<exists>d. k = keyFor d v then Some (cueFor (THE d. k = keyFor d v) v) else utteranceCache p k)"
proof (cases "\<exists>d. k = keyFor d v")
  case True
  then obtain d where k: "k = keyFor d v" by blast
  then have the: "(THE d. k = keyFor d v) = d" by (auto simp add: keyFor_inj)
  show ?thesis unfolding preloadValue_cache using True the k
    by (cases d) (simp_all add: keyFor_inj)
next
  case False
  then show ?thesis unfolding preloadValue_cache by auto
qed

lemma preloadAll_lookup_hit:
  "v \<in> set vs \<Longrightarrow>
     utteranceCache (foldl (\<lambda>p clickValue. foldl (preloadOne clickValue) p directions) p vs) (keyFor d v)
       = Some (cueFor d v)"
proof (induction vs arbitrary: v rule: rev_induct)
  case Nil
  then show ?case by simp
next
  case (snoc x xs)
  show ?case
  proof (cases "v = x")
    case True
    have "(THE d'. keyFor d x = keyFor d' x) = d" by (auto simp add: keyFor_inj)
    then show ?thesis using True by (auto simp add: preloadValue_lookup)
  next
    case False
    then have "v \<in> set xs" using snoc.prems by simp
    moreover have "\<not> (\<exists>d'. keyFor d v = keyFor d' x)" using False by (simp add: keyFor_inj)
    ultimately show ?thesis using snoc.IH by (simp add: preloadValue_lookup)
  qed
qed

lemma preloadAll_lookup_miss:
  "\<not> (\<exists>d v. v \<in> set vs \<and> k = keyFor d v) \<Longrightarrow>
     utteranceCache (foldl (\<lambda>p clickValue. foldl (preloadOne clickValue) p directions) p vs) k
       = utteranceCache p k"
proof (induction vs rule: rev_induct)
  case Nil
  then show ?case by simp
next
  case (snoc x xs)
  have "\<not> (\<exists>d. k = keyFor d x)" using snoc.prems by auto
  moreover have "\<not> (\<exists>d v. v \<in> set xs \<and> k = keyFor d v)" using snoc.prems by auto
  ultimately show ?case using snoc.IH by (simp add: preloadValue_lookup)
qed

lemma preload_lookup_hit:
  assumes "isSupported player" "v \<in> set vs"
  shows "utteranceCache (preload player vs) (keyFor d v) = Some (cueFor d v)"
  using assms by (simp add: preload_def preloadAll_lookup_hit)

lemma preload_lookup_miss:
  assumes "isSupported player" "\<not> (\<exists>d v. v \<in> set vs \<and> k = keyFor d v)"
  shows "utteranceCache (preload player vs) k = None"
  using assms by (simp add: preload_def preloadAll_lookup_miss)

lemma preload_dom:
  assumes "isSupported player"
  shows "dom (utteranceCache (preload player vs)) = {keyFor d v | d v. v \<in> set vs}"
proof (rule set_eqI)
  fix k
  show "k \<in> dom (utteranceCache (preload player vs)) \<longleftrightarrow> k \<in> {keyFor d v | d v. v \<in> set vs}"
  proof (cases "\<exists>d v. v \<in> set vs \<and> k = keyFor d v")
    case True
    then show ?thesis using preload_lookup_hit [OF assms] by auto
  next
    case False
    then have "utteranceCache (preload player vs) k = None"
      using assms by (rule preload_lookup_miss [rotated])
    then show ?thesis using False by auto
  qed
qed

lemma UNIV_Direction: "(UNIV :: Direction set) = {Up, Down, Left, Right}"
  by (auto intro: Direction.exhaust)

lemma card_keys: "card {keyFor d v | d v. v \<in> set vs} = 4 * card (set vs)"
proof -
  have "{keyFor d v | d v. v \<in> set vs} = (\<lambda>(d, v). keyFor d v) ` (UNIV \<times> set vs)"
    by auto
  moreover have "inj_on (\<lambda>(d, v). keyFor d v) (UNIV \<times> set vs)"
    by (auto simp add: inj_on_def keyFor_inj)
  ultimately have "card {keyFor d v | d v. v \<in> set vs} = card ((UNIV :: Direction set) \<times> set vs)"
    by (simp add: card_image)
  also have "\<dots> = card (UNIV :: Direction set) * card (set vs)"
    by (rule card_cartesian_product)
  also have "card (UNIV :: Direction set) = 4" by (simp add: UNIV_Direction)
  finally show ?thesis .
qed

lemma calculateAutoSpeed_tenths:
  "calculateAutoSpeed (of_int k / 10) = specAutoSpeed (of_int k / 10)"
proof (cases "(of_int k / 10 :: rat) \<ge> 1")
  case True
  then show ?thesis by (simp add: calculateAutoSpeed_def specAutoSpeed_def)
next
  case False
  have a: "(1 - of_int k / 10) * 10 = (of_int (10 - k) :: rat)" by (simp add: algebra_simps)
  have b: "(1 - of_int k / 10) / (1 / 10) = (of_int (10 - k) :: rat)" by (simp add: algebra_simps)
  have "mathRound ((1 - of_int k / 10) * 10) = 10 - k"
    unfolding mathRound_def a by linarith
  moreover have "\<lfloor>(1 - of_int k / 10 :: rat) / (1 / 10)\<rfloor> = 10 - k"
    unfolding b by simp
  ultimately show ?thesis using False
    by (simp add: calculateAutoSpeed_def specAutoSpeed_def Let_def)
qed

lemma clampedRate_range: "1 / 2 \<le> clampedRate i ms sm \<and> clampedRate i ms sm \<le> 10"
  by (simp add: clampedRate_def Let_def)

lemma play_cached:
  assumes "isSupported player" "utteranceCache player (commandToKey c) = Some u"
  shows "speechQueue (play player c i ms sm) = [u\<lparr>rate := clampedRate i ms sm\<rparr>]"
  using assms by (simp add: play_def Let_def speak_def cancel_def)

lemma play_uncached:
  assumes "\<not> isSupported player \<or> utteranceCache player (commandToKey c) = None"
  shows "speechQueue (play player c i ms sm) = speechQueue player"
  using assms by (auto simp add: play_def Let_def)

section \<open>Claims about the speech player\<close>

lemma preloaded_five:
  "isSupported (preload (newCommandPlayer True) [5])
   \<and> utteranceCache (preload (newCommandPlayer True) [5]) (commandToKey \<lparr>direction = Up, val = 5\<rparr>)
       = Some \<lparr>spokenText = ''UP 5'', pitch = 1, volume = 1, rate = 1\<rparr>
   \<and> utteranceCache (preload (newCommandPlayer True) [5]) (commandToKey \<lparr>direction = Up, val = 10\<rparr>)
       = None"
  by code_simp

text \<open>
  C7, as the claim words it, fails for an interval that is not a whole multiple of 0.1 s: at
  0.75 s the interval is two full tenths below 1.0 s, which gives 2.6, and the code gives 2.9,
  because it rounds 2.5 steps to 3.
\<close>

theorem autoSpeed_counterexample:
  "calculateAutoSpeed (3 / 4) = 29 / 10 \<and> specAutoSpeed (3 / 4) = 26 / 10"
  by code_simp

text \<open>
  C7, amended. The automatic rate is 2.0 when the interval is at least 1.0 s; below 1.0 s it
  is 2.0 plus 0.3 times the number of 0.1 s steps between the interval and 1.0 s rounded to
  the nearest integer (a half rounds up); for an interval that is a whole multiple of 0.1 s
  this is 0.3 for every full 0.1 s below 1.0 s. Interval 1.0 gives 2.0, 0.7 gives 2.9, 1.5
  gives 2.0. The rate that \<open>play\<close> gives to the utterance it speaks lies in \<open>[0.5, 10]\<close>.
\<close>

theorem autoSpeed_rounded_steps:
  "(1 \<le> i \<longrightarrow> calculateAutoSpeed i = 2)
   \<and> (i < 1 \<longrightarrow> calculateAutoSpeed i = 2 + (3 / 10) * of_int \<lfloor>(1 - i) * 10 + 1 / 2\<rfloor>)
   \<and> (i = of_int k / 10 \<longrightarrow> calculateAutoSpeed i = specAutoSpeed i)
   \<and> calculateAutoSpeed 1 = 2 \<and> calculateAutoSpeed (7 / 10) = 29 / 10
   \<and> calculateAutoSpeed (3 / 2) = 2
   \<and> 1 / 2 \<le> clampedRate i ms sm \<and> clampedRate i ms sm \<le> 10
   \<and> (isSupported player \<and> utteranceCache player (commandToKey c) = Some u \<longrightarrow>
        map rate (speechQueue (play player c i ms sm)) = [clampedRate i ms sm])"
proof -
  have e1: "calculateAutoSpeed 1 = 2" by (simp add: calculateAutoSpeed_def)
  have e2: "calculateAutoSpeed (7 / 10) = 29 / 10" by code_simp
  have e3: "calculateAutoSpeed (3 / 2) = 2" by (simp add: calculateAutoSpeed_def)
  have a: "1 \<le> i \<longrightarrow> calculateAutoSpeed i = 2" by (simp add: calculateAutoSpeed_def)
  have b: "i < 1 \<longrightarrow> calculateAutoSpeed i = 2 + (3 / 10) * of_int \<lfloor>(1 - i) * 10 + 1 / 2\<rfloor>"
    by (simp add: calculateAutoSpeed_def mathRound_def Let_def)
  have c: "i = of_int k / 10 \<longrightarrow> calculateAutoSpeed i = specAutoSpeed i"
    using calculateAutoSpeed_tenths by blast
  have d: "isSupported player \<and> utteranceCache player (commandToKey c) = Some u \<longrightarrow>
        map rate (speechQueue (play player c i ms sm)) = [clampedRate i ms sm]"
    by (simp add: play_cached)
  show ?thesis using e1 e2 e3 a b c d clampedRate_range [of i ms sm] by blast
qed

theorem autoSpeed_rounded_steps_witness:
  "(1 :: rat) \<le> 3 / 2 \<and> calculateAutoSpeed (3 / 2) = 2
   \<and> (4 / 10 :: rat) < 1 \<and> (4 / 10 :: rat) = of_int 4 / 10
   \<and> calculateAutoSpeed (4 / 10) = 2 + (3 / 10) * of_int \<lfloor>(1 - 4 / 10 :: rat) * 10 + 1 / 2\<rfloor>
   \<and> calculateAutoSpeed (4 / 10) = specAutoSpeed (4 / 10)
   \<and> isSupported (preload (newCommandPlayer True) [5])
   \<and> utteranceCache (preload (newCommandPlayer True) [5]) (commandToKey \<lparr>direction = Up, val = 5\<rparr>)
       = Some \<lparr>spokenText = ''UP 5'', pitch = 1, volume = 1, rate = 1\<rparr>
   \<and> map rate (speechQueue (play (preload (newCommandPlayer True) [5])
         \<lparr>direction = Up, val = 5\<rparr> (4 / 10) False 2)) = [clampedRate (4 / 10) False 2]"
proof -
  have a: "(1 :: rat) \<le> 3 / 2" by simp
  have b: "(4 / 10 :: rat) < 1" by simp
  have c: "(4 / 10 :: rat) = of_int 4 / 10" by simp
  have s: "isSupported (preload (newCommandPlayer True) [5])"
    using preloaded_five by (elim conjE) assumption
  have h: "utteranceCache (preload (newCommandPlayer True) [5])
       (commandToKey \<lparr>direction = Up, val = 5\<rparr>)
       = Some \<lparr>spokenText = ''UP 5'', pitch = 1, volume = 1, rate = 1\<rparr>"
    using preloaded_five by (elim conjE) assumption
  note w1 = autoSpeed_rounded_steps [of "3 / 2" 0 True 1 "newCommandPlayer False"
      "\<lparr>direction = Up, val = 5\<rparr>" "newUtterance []"]
  note w2 = autoSpeed_rounded_steps [of "4 / 10" 4 False 2 "preload (newCommandPlayer True) [5]"
      "\<lparr>direction = Up, val = 5\<rparr>" "\<lparr>spokenText = ''UP 5'', pitch = 1, volume = 1, rate = 1\<rparr>"]
  have "(1 :: rat) \<le> 3 / 2 \<longrightarrow> calculateAutoSpeed (3 / 2) = 2"
    using w1 by (elim conjE) assumption
  then have r1: "calculateAutoSpeed (3 / 2) = 2" using a by (rule mp)
  have "(4 / 10 :: rat) < 1 \<longrightarrow> calculateAutoSpeed (4 / 10)
      = 2 + (3 / 10) * of_int \<lfloor>(1 - 4 / 10 :: rat) * 10 + 1 / 2\<rfloor>"
    using w2 by (elim conjE) assumption
  then have r2: "calculateAutoSpeed (4 / 10)
      = 2 + (3 / 10) * of_int \<lfloor>(1 - 4 / 10 :: rat) * 10 + 1 / 2\<rfloor>" using b by (rule mp)
  have "(4 / 10 :: rat) = of_int 4 / 10 \<longrightarrow> calculateAutoSpeed (4 / 10) = specAutoSpeed (4 / 10)"
    using w2 by (elim conjE) assumption
  then have r3: "calculateAutoSpeed (4 / 10) = specAutoSpeed (4 / 10)" using c by (rule mp)
  have "isSupported (preload (newCommandPlayer True) [5])
        \<and> utteranceCache (preload (newCommandPlayer True) [5])
            (commandToKey \<lparr>direction = Up, val = 5\<rparr>)
          = Some \<lparr>spokenText = ''UP 5'', pitch = 1, volume = 1, rate = 1\<rparr>
      \<longrightarrow> map rate (speechQueue (play (preload (newCommandPlayer True) [5])
         \<lparr>direction = Up, val = 5\<rparr> (4 / 10) False 2)) = [clampedRate (4 / 10) False 2]"
    using w2 by (elim conjE) assumption
  moreover have "isSupported (preload (newCommandPlayer True) [5])
        \<and> utteranceCache (preload (newCommandPlayer True) [5])
            (commandToKey \<lparr>direction = Up, val = 5\<rparr>)
          = Some \<lparr>spokenText = ''UP 5'', pitch = 1, volume = 1, rate = 1\<rparr>"
    using s h by (rule conjI)
  ultimately have r4: "map rate (speechQueue (play (preload (newCommandPlayer True) [5])
         \<lparr>direction = Up, val = 5\<rparr> (4 / 10) False 2)) = [clampedRate (4 / 10) False 2]"
    by (rule mp)
  show ?thesis by (intro conjI a r1 b c r2 r3 s h r4)
qed

text \<open>
  C9, as the claim words it, fails when the requested command was not pre-cached: the
  warm-up utterance is in flight, \<open>play\<close> is called for a command that is not in the
  cache, and the warm-up utterance is still in flight afterwards.
\<close>

theorem play_uncached_counterexample:
  "isSupported (warmUp (newCommandPlayer True))
   \<and> utteranceCache (warmUp (newCommandPlayer True)) (commandToKey \<lparr>direction = Up, val = 5\<rparr>)
        = None
   \<and> speechQueue (warmUp (newCommandPlayer True))
        = [\<lparr>spokenText = '' '', pitch = 1, volume = 0, rate = 1\<rparr>]
   \<and> speechQueue (play (warmUp (newCommandPlayer True)) \<lparr>direction = Up, val = 5\<rparr> 1 False 2)
        = [\<lparr>spokenText = '' '', pitch = 1, volume = 0, rate = 1\<rparr>]"
  by code_simp

text \<open>
  C9, amended. On a supported platform every call to \<open>play\<close> for a pre-cached command
  cancels any in-flight cue before playing: afterwards the only utterance in flight is the
  requested one, at the clamped rate. When the platform is unsupported or the command was
  not pre-cached, \<open>play\<close> speaks nothing and cancels nothing: the utterances in flight are
  the same as before.
\<close>

theorem play_cancels_when_cached:
  "(isSupported player \<and> utteranceCache player (commandToKey c) = Some u \<longrightarrow>
      speechQueue (play player c i ms sm) = [u\<lparr>rate := clampedRate i ms sm\<rparr>])
   \<and> (\<not> isSupported player \<or> utteranceCache player (commandToKey c) = None \<longrightarrow>
      speechQueue (play player c i ms sm) = speechQueue player)"
  using play_cached [of player c u i ms sm] play_uncached [of player c i ms sm] by blast

theorem play_cancels_when_cached_witness:
  "isSupported (preload (newCommandPlayer True) [5])
   \<and> utteranceCache (preload (newCommandPlayer True) [5]) (commandToKey \<lparr>direction = Up, val = 5\<rparr>)
       = Some \<lparr>spokenText = ''UP 5'', pitch = 1, volume = 1, rate = 1\<rparr>
   \<and> speechQueue (play (preload (newCommandPlayer True) [5]) \<lparr>direction = Up, val = 5\<rparr> 1 False 2)
       = [\<lparr>spokenText = ''UP 5'', pitch = 1, volume = 1, rate = 1\<rparr>\<lparr>rate := clampedRate 1 False 2\<rparr>]
   \<and> utteranceCache (preload (newCommandPlayer True) [5]) (commandToKey \<lparr>direction = Up, val = 10\<rparr>)
       = None
   \<and> speechQueue (play (preload (newCommandPlayer True) [5]) \<lparr>direction = Up, val = 10\<rparr> 1 False 2)
       = speechQueue (preload (newCommandPlayer True) [5])"
proof -
  have s: "isSupported (preload (newCommandPlayer True) [5])"
    using preloaded_five by (elim conjE) assumption
  have h5: "utteranceCache (preload (newCommandPlayer True) [5])
       (commandToKey \<lparr>direction = Up, val = 5\<rparr>)
       = Some \<lparr>spokenText = ''UP 5'', pitch = 1, volume = 1, rate = 1\<rparr>"
    using preloaded_five by (elim conjE) assumption
  have h10: "utteranceCache (preload (newCommandPlayer True) [5])
       (commandToKey \<lparr>direction = Up, val = 10\<rparr>) = None"
    using preloaded_five by (elim conjE) assumption
  note w1 = play_cancels_when_cached [of "preload (newCommandPlayer True) [5]"
      "\<lparr>direction = Up, val = 5\<rparr>" "\<lparr>spokenText = ''UP 5'', pitch = 1, volume = 1, rate = 1\<rparr>"
      1 False 2]
  note w2 = play_cancels_when_cached [of "preload (newCommandPlayer True) [5]"
      "\<lparr>direction = Up, val = 10\<rparr>" "\<lparr>spokenText = ''UP 5'', pitch = 1, volume = 1, rate = 1\<rparr>"
      1 False 2]
  have q5: "speechQueue (play (preload (newCommandPlayer True) [5]) \<lparr>direction = Up, val = 5\<rparr> 1 False 2)
       = [\<lparr>spokenText = ''UP 5'', pitch = 1, volume = 1, rate = 1\<rparr>\<lparr>rate := clampedRate 1 False 2\<rparr>]"
    by (rule mp [OF w1 [THEN conjunct1]]) (intro conjI s h5)
  have q10: "speechQueue (play (preload (newCommandPlayer True) [5]) \<lparr>direction = Up, val = 10\<rparr> 1 False 2)
       = speechQueue (preload (newCommandPlayer True) [5])"
    by (rule mp [OF w2 [THEN conjunct2]]) (rule disjI2, rule h10)
  show ?thesis by (intro conjI s h5 q5 h10 q10)
qed

text \<open>
  C10. After \<open>preload\<close> on a supported platform, the keys of the utterance cache are
  exactly the keys of the pairs of one of the four directions with one of the click values;
  different pairs have different keys, so the cache has four entries for each distinct
  click value; the entry of a pair is the fresh utterance made for it; and the cache is the
  one that \<open>preload\<close> builds from an empty cache, so nothing of an earlier cache remains.
\<close>

theorem preload_cache_contents:
  assumes "isSupported player"
  shows "dom (utteranceCache (preload player cvs))
           = {commandToKey \<lparr>direction = d, val = v\<rparr> | d v. v \<in> set cvs}
    \<and> card (dom (utteranceCache (preload player cvs))) = 4 * card (set cvs)
    \<and> (\<forall>d. \<forall>v \<in> set cvs.
          utteranceCache (preload player cvs) (commandToKey \<lparr>direction = d, val = v\<rparr>)
            = Some \<lparr>spokenText = directionString d @ '' '' @ numberToString v,
                    pitch = 1, volume = 1, rate = 1\<rparr>)
    \<and> utteranceCache (preload player cvs)
         = utteranceCache (preload (player\<lparr>utteranceCache := Map.empty\<rparr>) cvs)"
proof -
  have a: "dom (utteranceCache (preload player cvs))
           = {commandToKey \<lparr>direction = d, val = v\<rparr> | d v. v \<in> set cvs}"
    using preload_dom [OF assms, of cvs] by (simp add: keyFor_def)
  have b: "card (dom (utteranceCache (preload player cvs))) = 4 * card (set cvs)"
    using preload_dom [OF assms, of cvs] card_keys [of cvs] by simp
  have c: "\<forall>d. \<forall>v \<in> set cvs.
          utteranceCache (preload player cvs) (commandToKey \<lparr>direction = d, val = v\<rparr>)
            = Some \<lparr>spokenText = directionString d @ '' '' @ numberToString v,
                    pitch = 1, volume = 1, rate = 1\<rparr>"
    using preload_lookup_hit [OF assms] by (simp add: keyFor_def cueFor_def)
  have d: "utteranceCache (preload player cvs)
         = utteranceCache (preload (player\<lparr>utteranceCache := Map.empty\<rparr>) cvs)"
    using assms by (simp add: preload_def)
  show ?thesis using a b c d by blast
qed

theorem preload_cache_contents_witness:
  "isSupported (preload (newCommandPlayer True) [5])
   \<and> card (dom (utteranceCache (preload (preload (newCommandPlayer True) [5]) [10, 20]))) = 8
   \<and> utteranceCache (preload (preload (newCommandPlayer True) [5]) [10, 20])
        (commandToKey \<lparr>direction = Left, val = 20\<rparr>)
       = Some \<lparr>spokenText = directionString Left @ '' '' @ numberToString 20,
               pitch = 1, volume = 1, rate = 1\<rparr>"
proof -
  have a: "isSupported (preload (newCommandPlayer True) [5])"
    using preloaded_five by (elim conjE) assumption
  have b: "4 * card (set [10, 20 :: int]) = 8" by simp
  have c: "(20 :: int) \<in> set [10, 20]" by simp
  note w = preload_cache_contents [OF a, of "[10, 20]"]
  have "card (dom (utteranceCache (preload (preload (newCommandPlayer True) [5]) [10, 20])))
          = 4 * card (set [10, 20 :: int])"
    using w by (elim conjE) assumption
  then have r1: "card (dom (utteranceCache (preload (preload (newCommandPlayer True) [5]) [10, 20]))) = 8"
    by (simp only: b)
  have every: "\<forall>d. \<forall>v \<in> set [10, 20 :: int].
          utteranceCache (preload (preload (newCommandPlayer True) [5]) [10, 20])
            (commandToKey \<lparr>direction = d, val = v\<rparr>)
            = Some \<lparr>spokenText = directionString d @ '' '' @ numberToString v,
                    pitch = 1, volume = 1, rate = 1\<rparr>"
    using w by (elim conjE) assumption
  have r2: "utteranceCache (preload (preload (newCommandPlayer True) [5]) [10, 20])
        (commandToKey \<lparr>direction = Left, val = 20\<rparr>)
       = Some \<lparr>spokenText = directionString Left @ '' '' @ numberToString 20,
               pitch = 1, volume = 1, rate = 1\<rparr>"
    by (rule every [THEN spec, THEN bspec, OF c])
  show ?thesis by (intro conjI a r1 r2)
qed

section \<open>Claims about the drill runner\<close>

text \<open>
  C8, as the claim words it, fails for an empty sequence: the effect of a runner mounted
  with no commands returns without calling \<open>onFinish\<close> and without scheduling a timer,
  so the run stalls.
\<close>

theorem empty_sequence_counterexample:
  "fst (progressionEffect (defaultProps []) initialRunnerState (newCommandPlayer True))
     = NothingScheduled
   \<and> runDrill 5 (defaultProps []) initialRunnerState (newCommandPlayer True) = Stalled"
  by code_simp

text \<open>
  C8, amended. When the sequence is not empty and the current index is past its end (the
  sequence was cut short during the run), the effect calls \<open>onFinish\<close> at once with the
  last simulated position. When the sequence is empty, the effect calls nothing and
  schedules nothing: the final position is not delivered.
\<close>

theorem effect_without_current_command:
  "(commands props \<noteq> [] \<and> length (commands props) \<le> currentCommandIndex st \<longrightarrow>
      fst (progressionEffect props st player) = OnFinish (tAndERef st)
      \<and> runDrill (Suc fuel) props st player = Finished (tAndERef st))
   \<and> (commands props = [] \<longrightarrow>
      fst (progressionEffect props st player) = NothingScheduled
      \<and> runDrill (Suc fuel) props st player = Stalled)"
  by (simp add: progressionEffect_def currentCommand_def)

theorem effect_without_current_command_witness:
  "commands (defaultProps [\<lparr>direction = Up, val = 5\<rparr>]) \<noteq> []
   \<and> length (commands (defaultProps [\<lparr>direction = Up, val = 5\<rparr>]))
        \<le> currentCommandIndex \<lparr>currentCommandIndex = 1, tAndERef = (0, 5), displayTAndE = (0, 5)\<rparr>
   \<and> fst (progressionEffect (defaultProps [\<lparr>direction = Up, val = 5\<rparr>])
        \<lparr>currentCommandIndex = 1, tAndERef = (0, 5), displayTAndE = (0, 5)\<rparr>
        (newCommandPlayer True)) = OnFinish (0, 5)
   \<and> commands (defaultProps []) = []
   \<and> fst (progressionEffect (defaultProps []) initialRunnerState (newCommandPlayer True))
        = NothingScheduled"
proof -
  have a: "commands (defaultProps [\<lparr>direction = Up, val = 5\<rparr>]) \<noteq> []"
    by (simp add: defaultProps_def)
  have b: "length (commands (defaultProps [\<lparr>direction = Up, val = 5\<rparr>]))
        \<le> currentCommandIndex \<lparr>currentCommandIndex = 1, tAndERef = (0, 5), displayTAndE = (0, 5)\<rparr>"
    by (simp add: defaultProps_def)
  have c: "commands (defaultProps []) = []" by (simp add: defaultProps_def)
  have d: "tAndERef \<lparr>currentCommandIndex = 1, tAndERef = (0, 5), displayTAndE = (0, 5)\<rparr> = (0, 5)"
    by simp
  note w1 = effect_without_current_command [of "defaultProps [\<lparr>direction = Up, val = 5\<rparr>]"
      "\<lparr>currentCommandIndex = 1, tAndERef = (0, 5), displayTAndE = (0, 5)\<rparr>"
      "newCommandPlayer True" 0]
  note w2 = effect_without_current_command [of "defaultProps []" initialRunnerState
      "newCommandPlayer True" 0]
  have "fst (progressionEffect (defaultProps [\<lparr>direction = Up, val = 5\<rparr>])
        \<lparr>currentCommandIndex = 1, tAndERef = (0, 5), displayTAndE = (0, 5)\<rparr>
        (newCommandPlayer True))
      = OnFinish (tAndERef \<lparr>currentCommandIndex = 1, tAndERef = (0, 5), displayTAndE = (0, 5)\<rparr>)"
    by (rule mp [OF w1 [THEN conjunct1], THEN conjunct1]) (intro conjI a b)
  then have r1: "fst (progressionEffect (defaultProps [\<lparr>direction = Up, val = 5\<rparr>])
        \<lparr>currentCommandIndex = 1, tAndERef = (0, 5), displayTAndE = (0, 5)\<rparr>
        (newCommandPlayer True)) = OnFinish (0, 5)"
    by (simp only: d)
  have r2: "fst (progressionEffect (defaultProps []) initialRunnerState (newCommandPlayer True))
        = NothingScheduled"
    by (rule mp [OF w2 [THEN conjunct2], THEN conjunct1]) (rule c)
  show ?thesis by (intro conjI a b r1 c r2)
qed

end
